theory Spec2Isabelle
  imports Complex_Main "HOL-Library.Word"
begin

section \<open>Betweenness centrality on a partitioned graph (gen.cpp): data model\<close>

text \<open>
  The embedding follows \<^verbatim>\<open>exp/apps/compiler_outputs/bc/gen.cpp\<close>, CPU personality.
  Unsigned 32-bit fields are \<open>32 word\<close> (addition and subtraction wrap). The three
  \<^verbatim>\<open>float\<close> fields are modelled as \<open>real\<close>: rounding is not modelled, and a
  division by zero is 0 in HOL where the machine gives an infinity or a NaN, so
  statements about the float fields are made only at inputs on which every
  intermediate value is a small integer and no divisor is 0. The field
  \<^verbatim>\<open>propogation_flag\<close> is a \<^verbatim>\<open>uint8_t\<close> that only ever holds \<^verbatim>\<open>true\<close> or
  \<^verbatim>\<open>false\<close>; it is a \<open>bool\<close>.
\<close>

definition uint32_max :: "32 word" where
  "uint32_max = - 1"

definition infinity :: "32 word" where
  "infinity = uint32_max div 4"

record NodeData =
  current_length :: "32 word"
  old_length :: "32 word"
  num_shortest_paths :: "32 word"
  num_successors :: "32 word"
  num_predecessors :: "32 word"
  trim :: "32 word"
  to_add :: "32 word"
  to_add_float :: real
  dependency :: real
  betweeness_centrality :: real
  propogation_flag :: bool

text \<open>
  The graph of one host. \<open>edge_dsts g ! u\<close> lists the destinations of the outgoing
  edges of local node \<open>u\<close> in iteration order (\<^verbatim>\<open>edge_begin\<close>, \<^verbatim>\<open>edge_end\<close>,
  \<^verbatim>\<open>getEdgeDst\<close>); \<open>vertex_cut\<close> is what \<^verbatim>\<open>is_vertex_cut()\<close> returns. The model is
  of a run on a single host, where every node is local and owned, local and global
  identifiers coincide (\<^verbatim>\<open>getGID\<close>, \<^verbatim>\<open>getLID\<close> are the identity) and
  \<^verbatim>\<open>begin()\<close> .. \<^verbatim>\<open>end()\<close> ranges over all nodes.
\<close>

record Graph =
  edge_dsts :: "nat list list"
  vertex_cut :: bool

definition numNodes :: "Graph \<Rightarrow> nat" where
  "numNodes g = length (edge_dsts g)"

definition isLocal :: "Graph \<Rightarrow> nat \<Rightarrow> bool" where
  "isLocal g gid = (gid < numNodes g)"

definition wf_graph :: "Graph \<Rightarrow> bool" where
  "wf_graph g = list_all (list_all (\<lambda>v. v < numNodes g)) (edge_dsts g)"

subsection \<open>Synchronisation calls\<close>

datatype WriteLocation = writeSource | writeDestination | writeAny

datatype ReadLocation = readSource | readDestination | readAny

datatype ReduceOp = Reduce_set | Reduce_add | Reduce_min

datatype FieldName =
  F_current_length | F_num_shortest_paths | F_num_successors | F_num_predecessors
  | F_trim | F_to_add | F_to_add_float | F_dependency | F_propogation_flag

text \<open>
  One call \<^verbatim>\<open>_graph.sync<W, R, Reduce_op_field, Broadcast_field [, Bitset_field]>(name)\<close>:
  write location, read location, reduction, field, whether a bitset is given, and the
  loop name.
\<close>

datatype SyncCall = Sync WriteLocation ReadLocation ReduceOp FieldName bool string

datatype error =
  Assert_not_propogation_flag
  | Assert_trim_le_num_predecessors
  | Assert_trim_le_num_successors
  | Assert_trim_zero

record State =
  nodes :: "NodeData list"
  current_src_node :: nat
  SSSP_accum :: "32 word"
  NumShortestPaths_accum :: "32 word"
  DependencyPropogation_accum :: "32 word"
  bitset_to_add :: "nat set"
  bitset_to_add_float :: "nat set"
  bitset_num_shortest_paths :: "nat set"
  bitset_num_successors :: "nat set"
  bitset_num_predecessors :: "nat set"
  bitset_trim :: "nat set"
  bitset_current_length :: "nat set"
  bitset_propogation_flag :: "nat set"
  bitset_dependency :: "nat set"
  sync_log :: "SyncCall list"

text \<open>
  Modelled from the spec: \<^verbatim>\<open>hGraph::sync\<close> is not part of the sources. By section 4.1
  it ships the values written on replicas to the owning host, reduces them into the
  canonical value and broadcasts the result to the replicas. On a single host there
  is no replica, so the node data is left as it is; the call itself is recorded.
\<close>

definition sync :: "SyncCall \<Rightarrow> State \<Rightarrow> State" where
  "sync c st = st\<lparr>sync_log := sync_log st @ [c]\<rparr>"

definition getData :: "State \<Rightarrow> nat \<Rightarrow> NodeData" where
  "getData st v = nodes st ! v"

definition map_node :: "nat \<Rightarrow> (NodeData \<Rightarrow> NodeData) \<Rightarrow> State \<Rightarrow> State" where
  "map_node v f st = st\<lparr>nodes := (nodes st)[v := f (nodes st ! v)]\<rparr>"

text \<open>
  \<^verbatim>\<open>Galois::do_all\<close> applies the operator to every element of the range, in
  parallel. The model applies it in the order of the range, which is one of the
  schedules of the parallel loop. \<^verbatim>\<open>do_all_range\<close> (option \<^verbatim>\<open>doAllEdge\<close>) only
  divides the same work differently, and \<^verbatim>\<open>set_num_iter\<close> only labels statistics;
  neither is modelled.
\<close>

fun do_all :: "(nat \<Rightarrow> State \<Rightarrow> State) \<Rightarrow> nat list \<Rightarrow> State \<Rightarrow> State" where
  "do_all f [] st = st"
| "do_all f (u # us) st = do_all f us (f u st)"

fun do_all_chk :: "(nat \<Rightarrow> State \<Rightarrow> error + State) \<Rightarrow> nat list \<Rightarrow> State \<Rightarrow> error + State" where
  "do_all_chk f [] st = Inr st"
| "do_all_chk f (u # us) st = (case f u st of Inl e \<Rightarrow> Inl e | Inr st' \<Rightarrow> do_all_chk f us st')"

text \<open>
  Modelled from the spec: \<^verbatim>\<open>Galois::atomicMin\<close> (a header that is not part of the
  sources) is the atomic minimum of section 4.2: it stores the minimum of the cell
  and the argument and returns the value the cell held before.
\<close>

definition atomicMin :: "32 word \<Rightarrow> 32 word \<Rightarrow> 32 word \<times> 32 word" where
  "atomicMin cell b = (min cell b, cell)"

section \<open>InitializeGraph and InitializeIteration\<close>

definition InitializeGraph_op :: "nat \<Rightarrow> State \<Rightarrow> State" where
  "InitializeGraph_op src st =
     map_node src (\<lambda>d. d\<lparr>betweeness_centrality := 0, num_shortest_paths := 0,
       num_successors := 0, num_predecessors := 0, trim := 0, to_add := 0,
       to_add_float := 0, dependency := 0, propogation_flag := False\<rparr>) st"

definition InitializeGraph_go :: "Graph \<Rightarrow> State \<Rightarrow> State" where
  "InitializeGraph_go g st =
     (sync (Sync writeSource readDestination Reduce_set F_propogation_flag False ''InitializeIteration_prop_flag'')
      (sync (Sync writeSource readDestination Reduce_set F_to_add_float False ''InitializeGraph_to_add_float'')
      (sync (Sync writeSource readDestination Reduce_set F_to_add False ''InitializeGraph_to_add'')
      (sync (Sync writeSource readDestination Reduce_set F_trim False ''InitializeGraph_trim'')
      (sync (Sync writeSource readDestination Reduce_set F_num_predecessors False ''InitializeGraph_num_pred'')
      (sync (Sync writeSource readDestination Reduce_set F_num_successors False ''InitializeIteration_num_succ'')
      (sync (Sync writeSource readDestination Reduce_set F_num_shortest_paths False ''InitializeGraph_num_paths'')
      (do_all InitializeGraph_op [0..<numNodes g] st))))))))"

text \<open>
  The operator of \<^verbatim>\<open>InitializeIteration\<close>; \<open>local_current_src_node\<close> is the global
  \<^verbatim>\<open>current_src_node\<close>, \<open>local_infinity\<close> is \<open>infinity\<close>. The \<^verbatim>\<open>assert\<close> is a
  branch of the model.
\<close>

definition InitializeIteration_op :: "nat \<Rightarrow> State \<Rightarrow> error + State" where
  "InitializeIteration_op src st =
     (let is_source = (src = current_src_node st);
          st1 = (if \<not> is_source
                 then map_node src (\<lambda>d. d\<lparr>current_length := infinity, old_length := infinity\<rparr>) st
                 else map_node src (\<lambda>d. d\<lparr>current_length := 0, old_length := 0,
                        num_shortest_paths := 1, propogation_flag := True\<rparr>) st)
      in if \<not> is_source \<and> propogation_flag (getData st1 src)
         then Inl Assert_not_propogation_flag
         else Inr st1)"

definition InitializeIteration_go :: "Graph \<Rightarrow> State \<Rightarrow> error + State" where
  "InitializeIteration_go g st =
     (case do_all_chk InitializeIteration_op [0..<numNodes g] st of
        Inl e \<Rightarrow> Inl e
      | Inr st1 \<Rightarrow>
          Inr (sync (Sync writeSource readDestination Reduce_set F_current_length False ''InitializeIteration_cur_len'')
              (sync (Sync writeSource readDestination Reduce_set F_dependency False ''InitializeIteration_dep'') st1)))"

section \<open>Breadth-first search: FirstIterationSSSP and SSSP\<close>

text \<open>
  The body of the edge loop of \<^verbatim>\<open>FirstIterationSSSP::operator()\<close>. The source's distance
  is read again for every edge, as \<^verbatim>\<open>src_data\<close> is a reference.
\<close>

definition FirstIterationSSSP_edge :: "nat \<Rightarrow> State \<Rightarrow> nat \<Rightarrow> State" where
  "FirstIterationSSSP_edge src st dst =
     (let new_dist = 1 + current_length (getData st src);
          st1 = map_node dst (\<lambda>d. d\<lparr>current_length := fst (atomicMin (current_length d) new_dist)\<rparr>) st
      in st1\<lparr>bitset_current_length := insert dst (bitset_current_length st1)\<rparr>)"

definition FirstIterationSSSP_op :: "Graph \<Rightarrow> nat \<Rightarrow> State \<Rightarrow> State" where
  "FirstIterationSSSP_op g src st = foldl (FirstIterationSSSP_edge src) st (edge_dsts g ! src)"

definition FirstIterationSSSP_go :: "Graph \<Rightarrow> State \<Rightarrow> State" where
  "FirstIterationSSSP_go g st =
     (let range = (if isLocal g (current_src_node st) then [current_src_node st] else [])
      in sync (Sync writeDestination readSource Reduce_min F_current_length True ''FirstIterationSSSP_cur_len'')
           (do_all (FirstIterationSSSP_op g) range st))"

definition SSSP_edge :: "nat \<Rightarrow> State \<Rightarrow> nat \<Rightarrow> State" where
  "SSSP_edge src st dst =
     (let new_dist = 1 + current_length (getData st src);
          old = snd (atomicMin (current_length (getData st dst)) new_dist);
          st1 = map_node dst (\<lambda>d. d\<lparr>current_length := fst (atomicMin (current_length d) new_dist)\<rparr>) st
      in if old > new_dist
         then st1\<lparr>bitset_current_length := insert dst (bitset_current_length st1),
                  SSSP_accum := SSSP_accum st1 + 1\<rparr>
         else st1)"

definition SSSP_op :: "Graph \<Rightarrow> nat \<Rightarrow> State \<Rightarrow> State" where
  "SSSP_op g src st =
     (if old_length (getData st src) > current_length (getData st src)
      then foldl (SSSP_edge src)
             (map_node src (\<lambda>d. d\<lparr>old_length := current_length d\<rparr>) st) (edge_dsts g ! src)
      else st)"

text \<open>One pass of the \<^verbatim>\<open>do\<close> loop of \<^verbatim>\<open>SSSP::go\<close> up to the reduction of the accumulator.\<close>

definition SSSP_round :: "Graph \<Rightarrow> State \<Rightarrow> State" where
  "SSSP_round g st = do_all (SSSP_op g) [0..<numNodes g] (st\<lparr>SSSP_accum := 0\<rparr>)"

definition SSSP_sync_more :: "State \<Rightarrow> State" where
  "SSSP_sync_more st =
     sync (Sync writeDestination readSource Reduce_min F_current_length True ''SSSP_cur_len'') st"

definition SSSP_sync_last :: "Graph \<Rightarrow> State \<Rightarrow> State" where
  "SSSP_sync_last g st =
     (if vertex_cut g
      then sync (Sync writeDestination readAny Reduce_min F_current_length False ''SSSP_cur_len_any_v'') st
      else sync (Sync writeDestination readAny Reduce_min F_current_length True ''SSSP_cur_len_any'') st)"

partial_function (option) SSSP_loop :: "Graph \<Rightarrow> State \<Rightarrow> State option" where
  "SSSP_loop g st =
     (let st1 = SSSP_round g st; accum_result = SSSP_accum st1
      in if accum_result \<noteq> 0 then SSSP_loop g (SSSP_sync_more st1)
         else Some (SSSP_sync_last g st1))"

definition SSSP_go :: "Graph \<Rightarrow> State \<Rightarrow> State option" where
  "SSSP_go g st = SSSP_loop g (FirstIterationSSSP_go g st)"

section \<open>PredAndSucc: the shortest-path DAG\<close>

text \<open>
  Modelled from the spec: \<^verbatim>\<open>Galois::add\<close> and \<^verbatim>\<open>Galois::atomicAdd\<close> (a header that
  is not part of the sources) are the local and the atomic increment of section 4.3;
  both are \<open>+\<close> on the field's type.
\<close>

definition PredAndSucc_edge :: "nat \<Rightarrow> State \<Rightarrow> nat \<Rightarrow> State" where
  "PredAndSucc_edge src st dst =
     (let edge_weight = 1 in
      if current_length (getData st src) + edge_weight = current_length (getData st dst)
      then let st1 = map_node src (\<lambda>d. d\<lparr>num_successors := num_successors d + 1\<rparr>) st;
               st2 = map_node dst (\<lambda>d. d\<lparr>num_predecessors := num_predecessors d + 1\<rparr>) st1
           in st2\<lparr>bitset_num_successors := insert src (bitset_num_successors st2),
                  bitset_num_predecessors := insert dst (bitset_num_predecessors st2)\<rparr>
      else st)"

definition PredAndSucc_op :: "Graph \<Rightarrow> nat \<Rightarrow> State \<Rightarrow> State" where
  "PredAndSucc_op g src st =
     (if current_length (getData st src) \<noteq> infinity
      then foldl (PredAndSucc_edge src) st (edge_dsts g ! src)
      else st)"

definition PredAndSucc_go :: "Graph \<Rightarrow> State \<Rightarrow> State" where
  "PredAndSucc_go g st =
     (sync (Sync writeSource readAny Reduce_add F_num_successors True ''PredAndSucc_succ'')
      (sync (Sync writeDestination readSource Reduce_add F_num_predecessors True ''PredAndSucc_pred'')
      (do_all (PredAndSucc_op g) [0..<numNodes g] st)))"

section \<open>NumShortestPaths: counting shortest paths\<close>

definition NumShortestPaths_edge :: "nat \<Rightarrow> State \<Rightarrow> nat \<Rightarrow> State" where
  "NumShortestPaths_edge src st dst =
     (let edge_weight = 1;
          paths_to_add = num_shortest_paths (getData st src) in
      if current_length (getData st src) + edge_weight = current_length (getData st dst)
      then let st1 = map_node dst (\<lambda>d. d\<lparr>to_add := to_add d + paths_to_add\<rparr>) st;
               st2 = map_node dst (\<lambda>d. d\<lparr>trim := trim d + 1\<rparr>) st1
           in st2\<lparr>bitset_to_add := insert dst (bitset_to_add st2),
                  bitset_trim := insert dst (bitset_trim st2),
                  NumShortestPaths_accum := NumShortestPaths_accum st2 + 1\<rparr>
      else st)"

definition NumShortestPaths_op :: "Graph \<Rightarrow> nat \<Rightarrow> State \<Rightarrow> State" where
  "NumShortestPaths_op g src st =
     (if current_length (getData st src) \<noteq> infinity
      then if propogation_flag (getData st src) \<and> num_successors (getData st src) > 0
           then map_node src (\<lambda>d. d\<lparr>propogation_flag := False\<rparr>)
                  (foldl (NumShortestPaths_edge src) st (edge_dsts g ! src))
           else st
      else st)"

definition NumShortestPathsChanges_trim :: "nat \<Rightarrow> State \<Rightarrow> error + State" where
  "NumShortestPathsChanges_trim src st =
     (if trim (getData st src) > 0
      then if \<not> trim (getData st src) \<le> num_predecessors (getData st src)
           then Inl Assert_trim_le_num_predecessors
           else let st1 = map_node src (\<lambda>d. d\<lparr>num_predecessors := num_predecessors d - trim d\<rparr>) st;
                    st2 = map_node src (\<lambda>d. d\<lparr>trim := 0\<rparr>) st1
                in if num_predecessors (getData st2 src) = 0
                   then if propogation_flag (getData st2 src)
                        then Inl Assert_not_propogation_flag
                        else let st3 = map_node src (\<lambda>d. d\<lparr>propogation_flag := True\<rparr>) st2
                             in if num_successors (getData st3 src) = 0
                                then Inr (st3\<lparr>bitset_propogation_flag := insert src (bitset_propogation_flag st3)\<rparr>)
                                else Inr st3
                   else Inr st2
      else Inr st)"

definition NumShortestPathsChanges_to_add :: "nat \<Rightarrow> State \<Rightarrow> State" where
  "NumShortestPathsChanges_to_add src st =
     (if to_add (getData st src) > 0
      then let st1 = map_node src (\<lambda>d. d\<lparr>num_shortest_paths := num_shortest_paths d + to_add d\<rparr>) st;
               st2 = map_node src (\<lambda>d. d\<lparr>to_add := 0\<rparr>) st1
           in st2\<lparr>bitset_num_shortest_paths := insert src (bitset_num_shortest_paths st2)\<rparr>
      else st)"

definition NumShortestPathsChanges_op :: "nat \<Rightarrow> State \<Rightarrow> error + State" where
  "NumShortestPathsChanges_op src st =
     (case NumShortestPathsChanges_trim src st of
        Inl e \<Rightarrow> Inl e
      | Inr st1 \<Rightarrow> Inr (NumShortestPathsChanges_to_add src st1))"

definition NumShortestPathsChanges_go :: "Graph \<Rightarrow> State \<Rightarrow> error + State" where
  "NumShortestPathsChanges_go g st = do_all_chk NumShortestPathsChanges_op [0..<numNodes g] st"

text \<open>
  The operator pass of one round of \<^verbatim>\<open>NumShortestPaths::go\<close>, with the two syncs that
  follow it, and then the whole round up to the reduction of the accumulator.
\<close>

definition NumShortestPaths_push :: "Graph \<Rightarrow> State \<Rightarrow> State" where
  "NumShortestPaths_push g st =
     (sync (Sync writeDestination readSource Reduce_add F_to_add True ''NumShortestPaths_to_add'')
      (sync (Sync writeDestination readSource Reduce_add F_trim True ''NumShortestPaths_trim'')
      (do_all (NumShortestPaths_op g) [0..<numNodes g] (st\<lparr>NumShortestPaths_accum := 0\<rparr>))))"

definition NumShortestPaths_round :: "Graph \<Rightarrow> State \<Rightarrow> error + State" where
  "NumShortestPaths_round g st = NumShortestPathsChanges_go g (NumShortestPaths_push g st)"

definition NumShortestPaths_sync_last :: "State \<Rightarrow> State" where
  "NumShortestPaths_sync_last st =
     (sync (Sync writeSource readDestination Reduce_set F_propogation_flag True ''NumShortestPaths_prop_flag'')
      (sync (Sync writeSource readDestination Reduce_set F_num_shortest_paths True ''NumShortestPaths_num_paths'') st))"

partial_function (option) NumShortestPaths_go :: "Graph \<Rightarrow> State \<Rightarrow> (error + State) option" where
  "NumShortestPaths_go g st =
     (case NumShortestPaths_round g st of
        Inl e \<Rightarrow> Some (Inl e)
      | Inr st1 \<Rightarrow>
          if NumShortestPaths_accum st1 \<noteq> 0 then NumShortestPaths_go g st1
          else Some (Inr (NumShortestPaths_sync_last st1)))"

section \<open>DependencyPropogation: back-propagating the dependency\<close>

definition DependencyPropogation_edge :: "nat \<Rightarrow> State \<Rightarrow> nat \<Rightarrow> State" where
  "DependencyPropogation_edge src st dst =
     (let edge_weight = 1 in
      if propogation_flag (getData st dst)
      then if current_length (getData st src) + edge_weight = current_length (getData st dst)
           then let st1 = map_node src (\<lambda>d. d\<lparr>trim := trim d + 1\<rparr>) st;
                    delta = (real (unat (num_shortest_paths (getData st1 src)))
                               / real (unat (num_shortest_paths (getData st1 dst))))
                            * (1 + dependency (getData st1 dst));
                    st2 = map_node src (\<lambda>d. d\<lparr>to_add_float := to_add_float d + delta\<rparr>) st1
                in st2\<lparr>bitset_trim := insert src (bitset_trim st2),
                       bitset_to_add_float := insert src (bitset_to_add_float st2),
                       DependencyPropogation_accum := DependencyPropogation_accum st2 + 1\<rparr>
           else st
      else st)"

definition DependencyPropogation_op :: "Graph \<Rightarrow> nat \<Rightarrow> State \<Rightarrow> State" where
  "DependencyPropogation_op g src st =
     (if current_length (getData st src) \<noteq> infinity
      then if num_successors (getData st src) > 0
           then if src \<noteq> current_src_node st
                then foldl (DependencyPropogation_edge src) st (edge_dsts g ! src)
                else map_node src (\<lambda>d. d\<lparr>num_successors := 0\<rparr>) st
           else st
      else st)"

definition DependencyPropChanges_op :: "nat \<Rightarrow> State \<Rightarrow> error + State" where
  "DependencyPropChanges_op src st =
     (if current_length (getData st src) \<noteq> infinity
      then let st1 = (if to_add_float (getData st src) > 0
                      then let s1 = map_node src (\<lambda>d. d\<lparr>dependency := dependency d + to_add_float d\<rparr>) st;
                               s2 = map_node src (\<lambda>d. d\<lparr>to_add_float := 0\<rparr>) s1
                           in s2\<lparr>bitset_dependency := insert src (bitset_dependency s2)\<rparr>
                      else st)
           in if num_successors (getData st1 src) = 0 \<and> propogation_flag (getData st1 src)
              then if trim (getData st1 src) \<noteq> 0
                   then Inl Assert_trim_zero
                   else let s1 = map_node src (\<lambda>d. d\<lparr>propogation_flag := False\<rparr>) st1;
                            s2 = s1\<lparr>bitset_propogation_flag := insert src (bitset_propogation_flag s1)\<rparr>
                        in Inr (map_node src (\<lambda>d. d\<lparr>num_shortest_paths := 0\<rparr>) s2)
              else if trim (getData st1 src) > 0
                   then if \<not> trim (getData st1 src) \<le> num_successors (getData st1 src)
                        then Inl Assert_trim_le_num_successors
                        else let s1 = map_node src (\<lambda>d. d\<lparr>num_successors := num_successors d - trim d\<rparr>) st1;
                                 s2 = map_node src (\<lambda>d. d\<lparr>trim := 0\<rparr>) s1
                             in if num_successors (getData s2 src) = 0
                                then if propogation_flag (getData s2 src)
                                     then Inl Assert_not_propogation_flag
                                     else let s3 = map_node src (\<lambda>d. d\<lparr>propogation_flag := True\<rparr>) s2
                                          in Inr (s3\<lparr>bitset_propogation_flag := insert src (bitset_propogation_flag s3)\<rparr>)
                                else Inr s2
                   else Inr st1
      else Inr st)"

definition DependencyPropChanges_go :: "Graph \<Rightarrow> State \<Rightarrow> error + State" where
  "DependencyPropChanges_go g st =
     (case do_all_chk DependencyPropChanges_op [0..<numNodes g] st of
        Inl e \<Rightarrow> Inl e
      | Inr st1 \<Rightarrow>
          Inr (sync (Sync writeSource readDestination Reduce_set F_propogation_flag True ''DependencyPropChanges_prop_flag'') st1))"

definition DependencyPropogation_push :: "Graph \<Rightarrow> State \<Rightarrow> State" where
  "DependencyPropogation_push g st =
     (sync (Sync writeSource readSource Reduce_add F_to_add_float True ''DependencyPropogation_to_add_float'')
      (sync (Sync writeSource readSource Reduce_add F_trim True ''DependencyPropogation_trim'')
      (do_all (DependencyPropogation_op g) [0..<numNodes g] (st\<lparr>DependencyPropogation_accum := 0\<rparr>))))"

definition DependencyPropogation_round :: "Graph \<Rightarrow> State \<Rightarrow> error + State" where
  "DependencyPropogation_round g st = DependencyPropChanges_go g (DependencyPropogation_push g st)"

partial_function (option) DependencyPropogation_go :: "Graph \<Rightarrow> State \<Rightarrow> (error + State) option" where
  "DependencyPropogation_go g st =
     (case DependencyPropogation_round g st of
        Inl e \<Rightarrow> Some (Inl e)
      | Inr st1 \<Rightarrow>
          if DependencyPropogation_accum st1 \<noteq> 0
          then DependencyPropogation_go g
                 (sync (Sync writeSource readDestination Reduce_set F_dependency True ''DependencyPropogation_dep'') st1)
          else Some (Inr st1))"

section \<open>BC: the loop over the sources\<close>

definition BC_op :: "nat \<Rightarrow> State \<Rightarrow> State" where
  "BC_op src st =
     map_node src (\<lambda>d. d\<lparr>dependency := 0\<rparr>)
       (map_node src (\<lambda>d. d\<lparr>betweeness_centrality := betweeness_centrality d + dependency d\<rparr>) st)"

text \<open>
  The phases of one source, in the order of the body of the \<^verbatim>\<open>for\<close> loop of \<^verbatim>\<open>BC::go\<close>:
  up to the end of the breadth-first search, up to the end of the path count, and up
  to the end of the dependency propagation. A loop that does not return gives \<open>None\<close>,
  a failed assertion gives \<open>Some (Inl e)\<close>.
\<close>

definition BC_bfs :: "Graph \<Rightarrow> State \<Rightarrow> (error + State) option" where
  "BC_bfs g st =
     (case InitializeIteration_go g st of
        Inl e \<Rightarrow> Some (Inl e)
      | Inr st1 \<Rightarrow> map_option Inr (SSSP_go g st1))"

definition BC_paths :: "Graph \<Rightarrow> State \<Rightarrow> (error + State) option" where
  "BC_paths g st =
     (case BC_bfs g st of
        None \<Rightarrow> None
      | Some (Inl e) \<Rightarrow> Some (Inl e)
      | Some (Inr st2) \<Rightarrow> NumShortestPaths_go g (PredAndSucc_go g st2))"

definition BC_phases :: "Graph \<Rightarrow> State \<Rightarrow> (error + State) option" where
  "BC_phases g st =
     (case BC_paths g st of
        None \<Rightarrow> None
      | Some (Inl e) \<Rightarrow> Some (Inl e)
      | Some (Inr st3) \<Rightarrow> DependencyPropogation_go g st3)"

definition BC_iteration :: "Graph \<Rightarrow> nat \<Rightarrow> State \<Rightarrow> (error + State) option" where
  "BC_iteration g i st =
     (case BC_phases g (st\<lparr>current_src_node := i\<rparr>) of
        None \<Rightarrow> None
      | Some (Inl e) \<Rightarrow> Some (Inl e)
      | Some (Inr st1) \<Rightarrow> Some (Inr (do_all BC_op [0..<numNodes g] st1)))"

fun BC_loop :: "Graph \<Rightarrow> nat list \<Rightarrow> State \<Rightarrow> (error + State) option" where
  "BC_loop g [] st = Some (Inr st)"
| "BC_loop g (i # srcs) st =
     (case BC_iteration g i st of
        None \<Rightarrow> None
      | Some (Inl e) \<Rightarrow> Some (Inl e)
      | Some (Inr st1) \<Rightarrow> BC_loop g srcs st1)"

text \<open>
  The command line options that select the sources. \<^verbatim>\<open>startSource + 1\<close> is computed
  on \<^verbatim>\<open>unsigned int\<close> before it is widened to 64 bits; the other sum is computed on
  64 bits and cannot wrap.
\<close>

record Options =
  singleSourceBC :: bool
  startSource :: "32 word"
  numberOfSources :: "32 word"

definition BC_go :: "Options \<Rightarrow> Graph \<Rightarrow> State \<Rightarrow> (error + State) option" where
  "BC_go opts g st =
     (let start_i = unat (startSource opts);
          end_i = (if singleSourceBC opts then unat (startSource opts + 1)
                   else if numberOfSources opts \<noteq> 0 then start_i + unat (numberOfSources opts)
                   else numNodes g)
      in BC_loop g [start_i..<end_i] st)"

declare SSSP_loop.simps [code]
declare NumShortestPaths_go.simps [code]
declare DependencyPropogation_go.simps [code]

section \<open>Concrete runs\<close>

text \<open>
  A run starts from zero-initialised node data, empty bitsets and no recorded sync,
  and calls \<^verbatim>\<open>InitializeGraph::go\<close> once, as \<^verbatim>\<open>main\<close> does.
\<close>

definition zero_node :: NodeData where
  "zero_node = \<lparr>current_length = 0, old_length = 0, num_shortest_paths = 0,
     num_successors = 0, num_predecessors = 0, trim = 0, to_add = 0, to_add_float = 0,
     dependency = 0, betweeness_centrality = 0, propogation_flag = False\<rparr>"

definition start_state :: "Graph \<Rightarrow> State" where
  "start_state g = InitializeGraph_go g
     \<lparr>nodes = replicate (numNodes g) zero_node, current_src_node = 0, SSSP_accum = 0,
      NumShortestPaths_accum = 0, DependencyPropogation_accum = 0,
      bitset_to_add = {}, bitset_to_add_float = {}, bitset_num_shortest_paths = {},
      bitset_num_successors = {}, bitset_num_predecessors = {}, bitset_trim = {},
      bitset_current_length = {}, bitset_propogation_flag = {}, bitset_dependency = {},
      sync_log = []\<rparr>"

text \<open>The path s, a, b, c as nodes 0, 1, 2, 3 with the edges 0-1, 1-2, 2-3.\<close>

definition path_graph :: Graph where
  "path_graph = \<lparr>edge_dsts = [[1], [2], [3], []], vertex_cut = False\<rparr>"

text \<open>
  The diamond s, a, b, t as nodes 0, 1, 2, 3 with the edges 0-1, 0-2, 1-3, 2-3, and a
  fifth node without edges.
\<close>

definition diamond_graph :: Graph where
  "diamond_graph = \<lparr>edge_dsts = [[1, 2], [3], [3], [], []], vertex_cut = False\<rparr>"

definition diamond_graph4 :: Graph where
  "diamond_graph4 = \<lparr>edge_dsts = [[1, 2], [3], [3], []], vertex_cut = False\<rparr>"

text \<open>The single edge 0-1, and the two nodes with the edges 0-1 and 1-0.\<close>

definition edge_graph :: Graph where
  "edge_graph = \<lparr>edge_dsts = [[1], []], vertex_cut = False\<rparr>"

definition cycle_graph :: Graph where
  "cycle_graph = \<lparr>edge_dsts = [[1], [0]], vertex_cut = False\<rparr>"

text \<open>The path under a vertex cut.\<close>

definition path_graph_vcut :: Graph where
  "path_graph_vcut = \<lparr>edge_dsts = [[1], [2], [3], []], vertex_cut = True\<rparr>"

text \<open>
  The state in which the iteration for source \<open>j\<close> starts its breadth-first search
  (that is, after its \<^verbatim>\<open>InitializeIteration::go\<close>) when the iteration for source \<open>i\<close>
  ran before it, and the state after the path count of that second iteration.
\<close>

definition BC_next_start :: "Graph \<Rightarrow> nat \<Rightarrow> nat \<Rightarrow> State \<Rightarrow> (error + State) option" where
  "BC_next_start g i j st =
     (case BC_iteration g i st of
        None \<Rightarrow> None
      | Some (Inl e) \<Rightarrow> Some (Inl e)
      | Some (Inr st1) \<Rightarrow> Some (InitializeIteration_go g (st1\<lparr>current_src_node := j\<rparr>)))"

definition BC_next_paths :: "Graph \<Rightarrow> nat \<Rightarrow> nat \<Rightarrow> State \<Rightarrow> (error + State) option" where
  "BC_next_paths g i j st =
     (case BC_iteration g i st of
        None \<Rightarrow> None
      | Some (Inl e) \<Rightarrow> Some (Inl e)
      | Some (Inr st1) \<Rightarrow> BC_paths g (st1\<lparr>current_src_node := j\<rparr>))"

text \<open>Reading the recorded sync calls.\<close>

fun sync_field :: "SyncCall \<Rightarrow> FieldName" where
  "sync_field (Sync w r red f b n) = f"

fun sync_reduce :: "SyncCall \<Rightarrow> ReduceOp" where
  "sync_reduce (Sync w r red f b n) = red"

fun sync_roles :: "SyncCall \<Rightarrow> WriteLocation \<times> ReadLocation" where
  "sync_roles (Sync w r red f b n) = (w, r)"

fun sync_bitset :: "SyncCall \<Rightarrow> bool" where
  "sync_bitset (Sync w r red f b n) = b"

definition syncs_of :: "ReduceOp \<Rightarrow> FieldName \<Rightarrow> SyncCall list \<Rightarrow> SyncCall list" where
  "syncs_of red f cs = filter (\<lambda>c. sync_reduce c = red \<and> sync_field c = f) cs"

definition bitset_syncs_of :: "FieldName \<Rightarrow> SyncCall list \<Rightarrow> SyncCall list" where
  "bitset_syncs_of f cs = filter (\<lambda>c. sync_field c = f \<and> sync_bitset c) cs"

text \<open>
  The state in which round \<open>k + 1\<close> of the \<^verbatim>\<open>do\<close> loop of \<^verbatim>\<open>SSSP::go\<close> starts when
  every earlier round went on, and the sum of all distances, which the rounds lower.
\<close>

primrec SSSP_rounds :: "Graph \<Rightarrow> nat \<Rightarrow> State \<Rightarrow> State" where
  "SSSP_rounds g 0 st = st"
| "SSSP_rounds g (Suc k) st = SSSP_rounds g k (SSSP_sync_more (SSSP_round g st))"

definition SSSP_potential :: "State \<Rightarrow> nat" where
  "SSSP_potential st = sum_list (map (\<lambda>d. unat (current_length d)) (nodes st))"

section \<open>Notions for the invariants of the path count and the dependency propagation\<close>

text \<open>
  The distances of the nodes, which phases 4.3 to 4.5 only read. For a list \<open>ds\<close> of
  distances, \<open>dag_mult g ds u v\<close> is the number of edges from \<open>u\<close> to \<open>v\<close> that
  satisfy the test \<^verbatim>\<open>src.current_length + 1 == dst.current_length\<close> of the operators,
  and \<open>dag_out g ds u\<close> the number of all edges of \<open>u\<close> that satisfy it.
  \<open>numEdges g\<close> is the number of edges of the graph.
\<close>

definition dists :: "State \<Rightarrow> 32 word list" where
  "dists st = map current_length (nodes st)"

definition dag_mult :: "Graph \<Rightarrow> 32 word list \<Rightarrow> nat \<Rightarrow> nat \<Rightarrow> nat" where
  "dag_mult g ds u v = length (filter (\<lambda>d. d = v \<and> ds ! u + 1 = ds ! d) (edge_dsts g ! u))"

definition dag_out :: "Graph \<Rightarrow> 32 word list \<Rightarrow> nat \<Rightarrow> nat" where
  "dag_out g ds u = length (filter (\<lambda>d. ds ! u + 1 = ds ! d) (edge_dsts g ! u))"

definition numEdges :: "Graph \<Rightarrow> nat" where
  "numEdges g = sum_list (map length (edge_dsts g))"

text \<open>
  The condition under which \<^verbatim>\<open>NumShortestPaths::operator()\<close> pushes from a node: the
  two nested tests of the operator.
\<close>

definition pushes :: "State \<Rightarrow> nat \<Rightarrow> bool" where
  "pushes st u = (current_length (getData st u) \<noteq> infinity
     \<and> propogation_flag (getData st u) \<and> num_successors (getData st u) > 0)"

text \<open>
  What \<^verbatim>\<open>NumShortestPathsChanges::operator()\<close> does to the data of its node when no
  assertion fails, and the condition under which none fails.
\<close>

definition NumShortestPathsChanges_ok :: "NodeData \<Rightarrow> bool" where
  "NumShortestPathsChanges_ok d =
     (trim d > 0 \<longrightarrow> trim d \<le> num_predecessors d
        \<and> \<not> (num_predecessors d - trim d = 0 \<and> propogation_flag d))"

definition NumShortestPathsChanges_node :: "NodeData \<Rightarrow> NodeData" where
  "NumShortestPathsChanges_node d =
     (let d1 = (if trim d > 0
                then d\<lparr>num_predecessors := num_predecessors d - trim d, trim := 0,
                       propogation_flag := (propogation_flag d \<or> num_predecessors d - trim d = 0)\<rparr>
                else d)
      in if to_add d > 0
         then d1\<lparr>num_shortest_paths := num_shortest_paths d + to_add d, to_add := 0\<rparr>
         else d1)"

text \<open>
  The conditions on a graph and its distances under which the counters of the two
  phases do not wrap: fewer than \<open>2^32\<close> edges, and no visited node one step
  before the sentinel.
\<close>

definition dists_ok :: "Graph \<Rightarrow> 32 word list \<Rightarrow> bool" where
  "dists_ok g ds \<longleftrightarrow> wf_graph g \<and> length ds = numNodes g \<and> numEdges g < 2 ^ 32
     \<and> (\<forall>u<numNodes g. ds ! u \<noteq> infinity \<longrightarrow> ds ! u + 1 \<noteq> infinity)"

text \<open>
  The invariant of the rounds of the path count. \<open>P\<close> is the set of the nodes that
  have pushed in an earlier round; \<open>pending_in g ds P v\<close> counts the DAG edges into
  \<open>v\<close> from visited nodes that have not pushed yet.
\<close>

definition pending_in :: "Graph \<Rightarrow> 32 word list \<Rightarrow> nat set \<Rightarrow> nat \<Rightarrow> nat" where
  "pending_in g ds P v =
     sum_list (map (\<lambda>u. if ds ! u \<noteq> infinity \<and> u \<notin> P then dag_mult g ds u v else 0)
       [0..<numNodes g])"

definition nsp_inv :: "Graph \<Rightarrow> 32 word list \<Rightarrow> nat set \<Rightarrow> State \<Rightarrow> bool" where
  "nsp_inv g ds P st \<longleftrightarrow> numNodes g = length (nodes st) \<and> dists st = ds
     \<and> (\<forall>v<numNodes g.
           trim (getData st v) = 0 \<and> to_add (getData st v) = 0
         \<and> unat (num_predecessors (getData st v)) = pending_in g ds P v
         \<and> (propogation_flag (getData st v)
              \<longrightarrow> num_predecessors (getData st v) = 0 \<and> ds ! v \<noteq> infinity)
         \<and> (v \<in> P \<longrightarrow> \<not> propogation_flag (getData st v) \<and> num_predecessors (getData st v) = 0)
         \<and> unat (num_successors (getData st v)) = (if ds ! v \<noteq> infinity then dag_out g ds v else 0))"

text \<open>The number of pushes of a round, and the nodes that push in it.\<close>

definition round_pushes :: "Graph \<Rightarrow> State \<Rightarrow> nat" where
  "round_pushes g st =
     sum_list (map (\<lambda>u. if pushes st u then dag_out g (dists st) u else 0) [0..<numNodes g])"

definition pushers :: "Graph \<Rightarrow> State \<Rightarrow> nat set" where
  "pushers g st = {u. u < numNodes g \<and> pushes st u}"

text \<open>
  What phases 4.3 to 4.5 need of the state in which the breadth-first search leaves
  the nodes: every distance is at most \<open>infinity\<close>, the counters and the deferred
  updates are zero, and a node whose flag is set has distance 0 (after
  \<^verbatim>\<open>InitializeIteration\<close> that is the source only).
\<close>

definition bfs_done :: "Graph \<Rightarrow> State \<Rightarrow> bool" where
  "bfs_done g st \<longleftrightarrow> numNodes g = length (nodes st) \<and> dists_ok g (dists st)
     \<and> (\<forall>v<numNodes g.
           current_length (getData st v) \<le> infinity
         \<and> num_successors (getData st v) = 0 \<and> num_predecessors (getData st v) = 0
         \<and> trim (getData st v) = 0 \<and> to_add (getData st v) = 0
         \<and> (propogation_flag (getData st v) \<longrightarrow> current_length (getData st v) = 0))"

text \<open>
  The first \<open>k\<close> rounds of the \<^verbatim>\<open>do\<close> loop of \<^verbatim>\<open>NumShortestPaths::go\<close>, whether or not
  the loop would have gone on; a failed assertion ends them.
\<close>

fun NumShortestPaths_rounds :: "Graph \<Rightarrow> nat \<Rightarrow> State \<Rightarrow> error + State" where
  "NumShortestPaths_rounds g 0 st = Inr st"
| "NumShortestPaths_rounds g (Suc k) st =
     (case NumShortestPaths_round g st of
        Inl e \<Rightarrow> Inl e
      | Inr st1 \<Rightarrow> NumShortestPaths_rounds g k st1)"

text \<open>The state in which the breadth-first search of the first iteration (source 0) ends.\<close>

definition bfs_state :: "Graph \<Rightarrow> State" where
  "bfs_state g = projr (the (BC_bfs g (start_state g)))"

section \<open>Basic facts\<close>

lemma unat_infinity: "unat infinity = 1073741823"
  by (simp add: infinity_def uint32_max_def)

lemma infinity_numeral: "infinity = 1073741823"
  by (simp add: infinity_def uint32_max_def)

lemma unat_succ_le_infinity:
  assumes "x \<le> infinity"
  shows "unat (1 + x) = 1 + unat x"
proof -
  from assms have "unat x \<le> 1073741823"
    by (simp add: word_le_nat_alt unat_infinity)
  then have "unat (1::32 word) + unat x < 2 ^ LENGTH(32)"
    by simp
  then have "unat (1 + x) = unat (1::32 word) + unat x"
    by (simp only: unat_add_lem)
  then show ?thesis by simp
qed

lemma min_succ_infinity:
  assumes "d \<le> infinity"
  shows "min d (1 + infinity) = d"
proof -
  have "infinity \<le> 1 + infinity"
    by (simp add: infinity_numeral)
  with assms have "d \<le> 1 + infinity" by (rule order_trans)
  then show ?thesis by (simp add: min_def)
qed

lemma nodes_map_node [simp]: "nodes (map_node v f st) = (nodes st)[v := f (nodes st ! v)]"
  by (simp add: map_node_def)

lemma map_node_fields [simp]:
  "current_src_node (map_node v f st) = current_src_node st"
  "SSSP_accum (map_node v f st) = SSSP_accum st"
  "NumShortestPaths_accum (map_node v f st) = NumShortestPaths_accum st"
  "DependencyPropogation_accum (map_node v f st) = DependencyPropogation_accum st"
  "sync_log (map_node v f st) = sync_log st"
  by (simp_all add: map_node_def)

lemma getData_map_node:
  "getData (map_node v f st) u =
     (if u = v \<and> v < length (nodes st) then f (getData st v) else getData st u)"
proof (cases "v < length (nodes st)")
  case True
  then show ?thesis by (simp add: getData_def nth_list_update)
next
  case False
  then have "(nodes st)[v := f (nodes st ! v)] = nodes st"
    by (simp add: list_update_beyond)
  with False show ?thesis by (simp add: getData_def)
qed

lemma sync_log_sync: "sync_log (sync c st) = sync_log st @ [c]"
  by (simp add: sync_def)

lemma sync_log_foldl:
  assumes "\<And>s d. sync_log (f s d) = sync_log s"
  shows "sync_log (foldl f st es) = sync_log st"
  using assms by (induction es arbitrary: st) simp_all

lemma sync_log_do_all:
  assumes "\<And>u s. sync_log (f u s) = sync_log s"
  shows "sync_log (do_all f us st) = sync_log st"
  using assms by (induction us arbitrary: st) simp_all

lemma length_nodes_map_node [simp]: "length (nodes (map_node v f st)) = length (nodes st)"
  by simp

lemma getData_sync [simp]: "getData (sync c st) v = getData st v"
  by (simp add: sync_def getData_def)

lemma wf_graph_edges:
  assumes "wf_graph g" and "u < numNodes g"
  shows "\<forall>d\<in>set (edge_dsts g ! u). d < numNodes g"
  using assms by (auto simp: wf_graph_def numNodes_def list_all_iff)

lemma word_less_succ:
  fixes c :: "32 word"
  assumes "c \<noteq> - 1"
  shows "c < 1 + c"
  using assms
  by (metis add.commute interval_class.inc_less_eq_imp_less word_le_less_eq
      word_order.not_eq_extremum)

section \<open>The worked examples\<close>

text \<open>
  C1: on the path s, a, b, c (nodes 0, 1, 2, 3), run on one host with source s, the
  phases of the iteration up to the end of the round loop of the dependency
  propagation return without a failed assertion, and then the dependency of a is 2,
  the dependency of b is 1, and the dependency of c (and of s) is 0.
\<close>

theorem path_graph_dependency:
  "map_option (map_sum id (map dependency \<circ> nodes))
     (BC_phases path_graph ((start_state path_graph)\<lparr>current_src_node := 0\<rparr>))
   = Some (Inr [0, 2, 1, 0])"
  by code_simp

text \<open>
  C2: on the diamond s, a, b, t (nodes 0, 1, 2, 3; with or without a fifth node that
  has no edge), run on one host with source s, the phases up to the end of the round
  loop of the path count return without a failed assertion, and then
  \<open>num_shortest_paths\<close> of t is 2.
\<close>

theorem diamond_graph_num_shortest_paths:
  "map_option (map_sum id (map num_shortest_paths \<circ> nodes))
     (BC_paths diamond_graph ((start_state diamond_graph)\<lparr>current_src_node := 0\<rparr>))
   = Some (Inr [1, 1, 1, 2, 0])
   \<and> map_option (map_sum id (map num_shortest_paths \<circ> nodes))
     (BC_paths diamond_graph4 ((start_state diamond_graph4)\<lparr>current_src_node := 0\<rparr>))
   = Some (Inr [1, 1, 1, 2])"
  by code_simp

text \<open>
  C3 does not hold on the code: on the single edge 0-1, after the iteration for
  source 0 and \<^verbatim>\<open>InitializeIteration\<close> for source 1, node 0 (which is not the source)
  still has \<open>num_shortest_paths = 1\<close>. The source of an iteration clears its flag when
  it pushes, so the branch of \<^verbatim>\<open>DependencyPropChanges\<close> that zeroes
  \<open>num_shortest_paths\<close> never runs for it.
\<close>

theorem stale_num_shortest_paths_of_previous_source:
  "map_option (map_sum id (map num_shortest_paths \<circ> nodes))
     (BC_next_start edge_graph 0 1 (start_state edge_graph)) = Some (Inr [1, 1])"
  by code_simp

text \<open>
  The stale count is added to: on the two nodes with the edges 0-1 and 1-0, the second
  iteration (source 1) counts 2 shortest paths to node 0, where there is one.
\<close>

lemma stale_num_shortest_paths_miscounts:
  "map_option (map_sum id (map num_shortest_paths \<circ> nodes))
     (BC_next_paths cycle_graph 0 1 (start_state cycle_graph)) = Some (Inr [2, 1])"
  by code_simp

text \<open>The other per-iteration fields are reset at that point.\<close>

lemma other_fields_reset_after_iteration:
  "map_option (map_sum id (map current_length \<circ> nodes))
     (BC_next_start edge_graph 0 1 (start_state edge_graph)) = Some (Inr [infinity, 0])
   \<and> map_option (map_sum id (map dependency \<circ> nodes))
     (BC_next_start edge_graph 0 1 (start_state edge_graph)) = Some (Inr [0, 0])
   \<and> map_option (map_sum id (map propogation_flag \<circ> nodes))
     (BC_next_start edge_graph 0 1 (start_state edge_graph)) = Some (Inr [False, True])"
  by code_simp

section \<open>InitializeIteration\<close>

lemma InitializeIteration_op_Inr:
  "InitializeIteration_op v st = Inr st' \<longleftrightarrow>
     (v = current_src_node st \<or> \<not> propogation_flag (getData st v)) \<and>
     st' = (if v \<noteq> current_src_node st
            then map_node v (\<lambda>d. d\<lparr>current_length := infinity, old_length := infinity\<rparr>) st
            else map_node v (\<lambda>d. d\<lparr>current_length := 0, old_length := 0,
                   num_shortest_paths := 1, propogation_flag := True\<rparr>) st)"
  by (auto simp add: InitializeIteration_op_def Let_def getData_map_node)

lemma InitializeIteration_loop_post:
  assumes "do_all_chk InitializeIteration_op us st = Inr st'"
  shows "current_src_node st' = current_src_node st \<and> length (nodes st') = length (nodes st)
     \<and> sync_log st' = sync_log st
     \<and> (\<forall>v. v \<notin> set us \<longrightarrow> getData st' v = getData st v)
     \<and> (\<forall>v\<in>set us. v < length (nodes st) \<longrightarrow>
          (if v = current_src_node st
           then getData st' v = (getData st v)\<lparr>current_length := 0, old_length := 0,
                   num_shortest_paths := 1, propogation_flag := True\<rparr>
           else getData st' v = (getData st v)\<lparr>current_length := infinity, old_length := infinity\<rparr>
                \<and> \<not> propogation_flag (getData st v)))"
  using assms
proof (induction us arbitrary: st)
  case Nil
  then show ?case by simp
next
  case (Cons u us)
  from Cons.prems obtain st1 where op: "InitializeIteration_op u st = Inr st1"
    and rest: "do_all_chk InitializeIteration_op us st1 = Inr st'"
    by (auto split: sum.splits)
  note ih = Cons.IH[OF rest]
  from op have st1: "current_src_node st1 = current_src_node st" "length (nodes st1) = length (nodes st)"
     "sync_log st1 = sync_log st"
    by (auto simp: InitializeIteration_op_Inr split: if_splits)
  from op have other: "\<And>v. v \<noteq> u \<Longrightarrow> getData st1 v = getData st v"
    by (auto simp: InitializeIteration_op_Inr getData_map_node split: if_splits)
  from op have self: "u < length (nodes st) \<Longrightarrow>
      (if u = current_src_node st
       then getData st1 u = (getData st u)\<lparr>current_length := 0, old_length := 0,
                   num_shortest_paths := 1, propogation_flag := True\<rparr>
       else getData st1 u = (getData st u)\<lparr>current_length := infinity, old_length := infinity\<rparr>
                \<and> \<not> propogation_flag (getData st u))"
    by (auto simp: InitializeIteration_op_Inr getData_map_node split: if_splits)
  show ?case
  proof (intro conjI allI ballI impI)
    show "current_src_node st' = current_src_node st" using ih st1 by simp
    show "length (nodes st') = length (nodes st)" using ih st1 by simp
    show "sync_log st' = sync_log st" using ih st1 by simp
  next
    fix v assume "v \<notin> set (u # us)"
    then show "getData st' v = getData st v" using ih other by simp
  next
    fix v assume v: "v \<in> set (u # us)" and len: "v < length (nodes st)"
    show "if v = current_src_node st
           then getData st' v = (getData st v)\<lparr>current_length := 0, old_length := 0,
                   num_shortest_paths := 1, propogation_flag := True\<rparr>
           else getData st' v = (getData st v)\<lparr>current_length := infinity, old_length := infinity\<rparr>
                \<and> \<not> propogation_flag (getData st v)"
    proof (cases "v \<in> set us")
      case True
      with ih len st1 have *: "if v = current_src_node st
           then getData st' v = (getData st1 v)\<lparr>current_length := 0, old_length := 0,
                   num_shortest_paths := 1, propogation_flag := True\<rparr>
           else getData st' v = (getData st1 v)\<lparr>current_length := infinity, old_length := infinity\<rparr>
                \<and> \<not> propogation_flag (getData st1 v)"
        by auto
      show ?thesis
      proof (cases "v = u")
        case True
        with * self len show ?thesis by (auto split: if_splits)
      next
        case False
        from * show ?thesis unfolding other[OF False] .
      qed
    next
      case False
      with v have vu: "v = u" by simp
      with False ih have "getData st' v = getData st1 v" by blast
      with self len vu show ?thesis by (auto split: if_splits)
    qed
  qed
qed

lemma InitializeIteration_loop_total:
  assumes "\<forall>v\<in>set us. v \<noteq> current_src_node st \<longrightarrow> \<not> propogation_flag (getData st v)"
  shows "\<exists>st'. do_all_chk InitializeIteration_op us st = Inr st'"
  using assms
proof (induction us arbitrary: st)
  case Nil
  then show ?case by simp
next
  case (Cons u us)
  define st1 where "st1 = (if u \<noteq> current_src_node st
            then map_node u (\<lambda>d. d\<lparr>current_length := infinity, old_length := infinity\<rparr>) st
            else map_node u (\<lambda>d. d\<lparr>current_length := 0, old_length := 0,
                   num_shortest_paths := 1, propogation_flag := True\<rparr>) st)"
  from Cons.prems have op: "InitializeIteration_op u st = Inr st1"
    by (auto simp add: InitializeIteration_op_Inr st1_def)
  have src: "current_src_node st1 = current_src_node st" by (simp add: st1_def)
  have "\<forall>v\<in>set us. v \<noteq> current_src_node st1 \<longrightarrow> \<not> propogation_flag (getData st1 v)"
    using Cons.prems by (auto simp: st1_def getData_map_node)
  from Cons.IH[OF this] op show ?case by simp
qed

text \<open>
  C9: when \<^verbatim>\<open>InitializeIteration::go\<close> returns (no assertion fails), the node that is
  the current source has \<open>current_length = 0\<close>, \<open>old_length = 0\<close>,
  \<open>num_shortest_paths = 1\<close> and its flag set, and every other node has
  \<open>current_length = old_length = infinity\<close>, its flag clear and its
  \<open>num_shortest_paths\<close> as before. It returns whenever the flag of every node other
  than the source is clear.
\<close>

theorem InitializeIteration_seeds_source:
  assumes "numNodes g = length (nodes st)"
  shows "(InitializeIteration_go g st = Inr st' \<longrightarrow>
          (\<forall>v<numNodes g.
             if v = current_src_node st
             then current_length (getData st' v) = 0 \<and> old_length (getData st' v) = 0
                  \<and> num_shortest_paths (getData st' v) = 1 \<and> propogation_flag (getData st' v)
             else current_length (getData st' v) = infinity \<and> old_length (getData st' v) = infinity
                  \<and> num_shortest_paths (getData st' v) = num_shortest_paths (getData st v)
                  \<and> \<not> propogation_flag (getData st' v)))
       \<and> ((\<forall>v<numNodes g. v \<noteq> current_src_node st \<longrightarrow> \<not> propogation_flag (getData st v))
            \<longrightarrow> (\<exists>s. InitializeIteration_go g st = Inr s))"
proof (intro conjI impI allI)
  fix v
  assume go: "InitializeIteration_go g st = Inr st'" and v: "v < numNodes g"
  from go obtain st1 where loop: "do_all_chk InitializeIteration_op [0..<numNodes g] st = Inr st1"
    and st': "st' = sync (Sync writeSource readDestination Reduce_set F_current_length False ''InitializeIteration_cur_len'')
              (sync (Sync writeSource readDestination Reduce_set F_dependency False ''InitializeIteration_dep'') st1)"
    by (auto simp: InitializeIteration_go_def split: sum.splits)
  have eq: "getData st' v = getData st1 v"
    by (simp add: st')
  from v assms have "v \<in> set [0..<numNodes g]" "v < length (nodes st)" by simp_all
  with InitializeIteration_loop_post[OF loop]
  show "if v = current_src_node st
             then current_length (getData st' v) = 0 \<and> old_length (getData st' v) = 0
                  \<and> num_shortest_paths (getData st' v) = 1 \<and> propogation_flag (getData st' v)
             else current_length (getData st' v) = infinity \<and> old_length (getData st' v) = infinity
                  \<and> num_shortest_paths (getData st' v) = num_shortest_paths (getData st v)
                  \<and> \<not> propogation_flag (getData st' v)"
    unfolding eq by (auto split: if_splits)
next
  assume "\<forall>v<numNodes g. v \<noteq> current_src_node st \<longrightarrow> \<not> propogation_flag (getData st v)"
  then have "\<forall>v\<in>set [0..<numNodes g]. v \<noteq> current_src_node st \<longrightarrow> \<not> propogation_flag (getData st v)"
    by simp
  from InitializeIteration_loop_total[OF this]
  show "\<exists>s. InitializeIteration_go g st = Inr s"
    by (auto simp: InitializeIteration_go_def)
qed


theorem InitializeIteration_seeds_source_witness:
  "numNodes path_graph = length (nodes (start_state path_graph))
   \<and> InitializeIteration_go path_graph (start_state path_graph)
       = Inr (projr (InitializeIteration_go path_graph (start_state path_graph)))
   \<and> current_src_node (start_state path_graph) = 0 \<and> numNodes path_graph = 4
   \<and> \<not> propogation_flag (getData (start_state path_graph) 1)
   \<and> \<not> propogation_flag (getData (start_state path_graph) 2)
   \<and> \<not> propogation_flag (getData (start_state path_graph) 3)
   \<and> current_length (getData (projr (InitializeIteration_go path_graph (start_state path_graph))) 0) = 0
   \<and> num_shortest_paths (getData (projr (InitializeIteration_go path_graph (start_state path_graph))) 0) = 1
   \<and> propogation_flag (getData (projr (InitializeIteration_go path_graph (start_state path_graph))) 0)
   \<and> current_length (getData (projr (InitializeIteration_go path_graph (start_state path_graph))) 1) = infinity
   \<and> old_length (getData (projr (InitializeIteration_go path_graph (start_state path_graph))) 1) = infinity
   \<and> (\<exists>s. InitializeIteration_go path_graph (start_state path_graph) = Inr s)"
proof -
  let ?st = "start_state path_graph"
  let ?st' = "projr (InitializeIteration_go path_graph ?st)"
  have len: "numNodes path_graph = length (nodes ?st)" by code_simp
  have go: "InitializeIteration_go path_graph ?st = Inr ?st'" by code_simp
  have n: "numNodes path_graph = 4" by code_simp
  have src: "current_src_node ?st = 0" by code_simp
  have flags: "\<forall>v<numNodes path_graph. v \<noteq> current_src_node ?st \<longrightarrow> \<not> propogation_flag (getData ?st v)"
    by code_simp
  note inst = InitializeIteration_seeds_source[OF len, of ?st']
  from inst go have all: "\<forall>v<numNodes path_graph.
             if v = current_src_node ?st
             then current_length (getData ?st' v) = 0 \<and> old_length (getData ?st' v) = 0
                  \<and> num_shortest_paths (getData ?st' v) = 1 \<and> propogation_flag (getData ?st' v)
             else current_length (getData ?st' v) = infinity \<and> old_length (getData ?st' v) = infinity
                  \<and> num_shortest_paths (getData ?st' v) = num_shortest_paths (getData ?st v)
                  \<and> \<not> propogation_flag (getData ?st' v)"
    by blast
  from inst flags have ex: "\<exists>s. InitializeIteration_go path_graph ?st = Inr s" by blast
  have f1: "\<not> propogation_flag (getData ?st 1)" by code_simp
  have f2: "\<not> propogation_flag (getData ?st 2)" by code_simp
  have f3: "\<not> propogation_flag (getData ?st 3)" by code_simp
  from all[rule_format, of 0] all[rule_format, of 1] n src len go f1 f2 f3 ex
  show ?thesis by simp
qed

section \<open>The sentinel and the candidate distance\<close>

lemma SSSP_edge_from_unvisited:
  assumes "current_length (getData st src) = infinity"
    and "current_length (getData st dst) \<le> infinity"
  shows "SSSP_edge src st dst = st"
proof -
  have "\<not> current_length (getData st dst) > 1 + infinity"
    using min_succ_infinity[OF assms(2)] by (simp add: min_def split: if_splits)
  then show ?thesis
    using assms min_succ_infinity[OF assms(2)]
    by (simp add: SSSP_edge_def atomicMin_def Let_def map_node_def getData_def)
qed

lemma FirstIterationSSSP_edge_from_unvisited:
  assumes "current_length (getData st src) = infinity"
    and "current_length (getData st dst) \<le> infinity"
  shows "nodes (FirstIterationSSSP_edge src st dst) = nodes st"
  using assms min_succ_infinity[OF assms(2)]
  by (simp add: FirstIterationSSSP_edge_def atomicMin_def Let_def map_node_def getData_def)

text \<open>
  C10: \<open>infinity\<close> is \<open>(2^32 - 1) div 4 = 1073741823\<close> and not the largest 32-bit
  value. For a node whose distance is at most \<open>infinity\<close> the candidate distance
  \<open>1 + current_length\<close> does not wrap. A relaxation from a node whose distance is
  \<open>infinity\<close> leaves every distance that is at most \<open>infinity\<close> as it is (both in
  the first round and in the later rounds, where it also counts no improvement), so
  an unvisited destination stays unvisited.
\<close>

theorem infinity_relaxation_no_overflow:
  assumes "current_length (getData st src) \<le> infinity"
    and "current_length (getData st dst) \<le> infinity"
  shows "unat infinity = (2 ^ 32 - 1) div 4 \<and> infinity = 1073741823 \<and> infinity \<noteq> uint32_max
    \<and> unat (1 + current_length (getData st src)) = 1 + unat (current_length (getData st src))
    \<and> (current_length (getData st src) = infinity \<longrightarrow>
         SSSP_edge src st dst = st \<and> nodes (FirstIterationSSSP_edge src st dst) = nodes st)"
  using assms
  by (simp add: unat_infinity unat_succ_le_infinity SSSP_edge_from_unvisited
      FirstIterationSSSP_edge_from_unvisited)
     (simp add: infinity_numeral uint32_max_def)

theorem infinity_relaxation_no_overflow_witness:
  "current_length (getData (projr (InitializeIteration_go path_graph (start_state path_graph))) 1) \<le> infinity
   \<and> current_length (getData (projr (InitializeIteration_go path_graph (start_state path_graph))) 2) \<le> infinity
   \<and> current_length (getData (projr (InitializeIteration_go path_graph (start_state path_graph))) 1) = infinity
   \<and> unat (1 + current_length (getData (projr (InitializeIteration_go path_graph (start_state path_graph))) 1))
       = 1 + unat (current_length (getData (projr (InitializeIteration_go path_graph (start_state path_graph))) 1))
   \<and> SSSP_edge 1 (projr (InitializeIteration_go path_graph (start_state path_graph))) 2
       = projr (InitializeIteration_go path_graph (start_state path_graph))
   \<and> nodes (FirstIterationSSSP_edge 1 (projr (InitializeIteration_go path_graph (start_state path_graph))) 2)
       = nodes (projr (InitializeIteration_go path_graph (start_state path_graph)))"
proof -
  let ?st = "projr (InitializeIteration_go path_graph (start_state path_graph))"
  have h1: "current_length (getData ?st 1) \<le> infinity" by code_simp
  have h2: "current_length (getData ?st 2) \<le> infinity" by code_simp
  have h3: "current_length (getData ?st 1) = infinity" by code_simp
  from infinity_relaxation_no_overflow[OF h1 h2] h1 h2 h3 show ?thesis by blast
qed

section \<open>The sync calls of PredAndSucc and of the breadth-first search\<close>

lemma sync_log_PredAndSucc_edge: "sync_log (PredAndSucc_edge src st dst) = sync_log st"
  by (simp add: PredAndSucc_edge_def Let_def)

lemma sync_log_PredAndSucc_op: "sync_log (PredAndSucc_op g u st) = sync_log st"
  by (simp add: PredAndSucc_op_def sync_log_foldl sync_log_PredAndSucc_edge)

lemma sync_log_SSSP_edge: "sync_log (SSSP_edge src st dst) = sync_log st"
  by (simp add: SSSP_edge_def Let_def)

lemma sync_log_SSSP_op: "sync_log (SSSP_op g u st) = sync_log st"
  by (simp add: SSSP_op_def sync_log_foldl sync_log_SSSP_edge)

lemma sync_log_SSSP_round: "sync_log (SSSP_round g st) = sync_log st"
  by (simp add: SSSP_round_def sync_log_do_all sync_log_SSSP_op)

lemma sync_log_FirstIterationSSSP_edge:
  "sync_log (FirstIterationSSSP_edge src st dst) = sync_log st"
  by (simp add: FirstIterationSSSP_edge_def Let_def)

lemma sync_log_FirstIterationSSSP_op: "sync_log (FirstIterationSSSP_op g u st) = sync_log st"
  by (simp add: FirstIterationSSSP_op_def sync_log_foldl sync_log_FirstIterationSSSP_edge)

lemma sync_log_FirstIterationSSSP_go:
  "sync_log (FirstIterationSSSP_go g st) = sync_log st @
     [Sync writeDestination readSource Reduce_min F_current_length True ''FirstIterationSSSP_cur_len'']"
  by (simp add: FirstIterationSSSP_go_def Let_def sync_log_sync sync_log_do_all
      sync_log_FirstIterationSSSP_op)

text \<open>
  C5 as stated does not hold on the code: the add-reduce of \<open>num_predecessors\<close> that
  follows the local pass writes at the destination and reads at the source; no call
  with write location source and read location destination is made for it.
\<close>

theorem PredAndSucc_pred_roles_counterexample:
  "(writeSource, readDestination) \<notin>
     set (map sync_roles (syncs_of Reduce_add F_num_predecessors
       (sync_log (PredAndSucc_go path_graph (start_state path_graph)))))"
  by code_simp

text \<open>
  C5, amended: after the local pass \<^verbatim>\<open>PredAndSucc::go\<close> makes exactly two sync calls,
  in this order: \<open>num_predecessors\<close> with an add-reduce, write location destination,
  read location source, and \<open>num_successors\<close> with an add-reduce, write location
  source, read location any; both with their bitset.
\<close>

theorem PredAndSucc_go_syncs:
  "sync_log (PredAndSucc_go g st) = sync_log st @
     [Sync writeDestination readSource Reduce_add F_num_predecessors True ''PredAndSucc_pred'',
      Sync writeSource readAny Reduce_add F_num_successors True ''PredAndSucc_succ'']"
  by (simp add: PredAndSucc_go_def sync_log_sync sync_log_do_all sync_log_PredAndSucc_op)

text \<open>
  C7 as stated does not hold on the code: under a vertex cut the breadth-first search
  on the path still makes two bitset-filtered syncs of \<open>current_length\<close>, the one of
  the first round and the one of the round that improved a distance.
\<close>

theorem vertex_cut_filtered_syncs_counterexample:
  "map_option (map_sum id (bitset_syncs_of F_current_length \<circ> sync_log))
     (BC_bfs path_graph_vcut (start_state path_graph_vcut))
   = Some (Inr
      [Sync writeDestination readSource Reduce_min F_current_length True ''FirstIterationSSSP_cur_len'',
       Sync writeDestination readSource Reduce_min F_current_length True ''SSSP_cur_len''])"
  by code_simp

section \<open>The rounds of the breadth-first search\<close>

lemma getData_accum_upd [simp]:
  "getData (st\<lparr>SSSP_accum := a\<rparr>) v = getData st v"
  "getData (st\<lparr>bitset_current_length := b\<rparr>) v = getData st v"
  by (simp_all add: getData_def)

lemma SSSP_edge_getData:
  assumes "dst < length (nodes st)"
  shows "getData (SSSP_edge src st dst) v =
     (if v = dst
      then (getData st v)\<lparr>current_length := min (current_length (getData st v)) (1 + current_length (getData st src))\<rparr>
      else getData st v)"
  using assms by (simp add: SSSP_edge_def Let_def atomicMin_def getData_map_node)

lemma SSSP_edge_frame:
  "length (nodes (SSSP_edge src st dst)) = length (nodes st)"
  "current_src_node (SSSP_edge src st dst) = current_src_node st"
  by (simp_all add: SSSP_edge_def Let_def)

lemma SSSP_edge_accum:
  "SSSP_accum (SSSP_edge src st dst) = SSSP_accum st +
     (if 1 + current_length (getData st src) < current_length (getData st dst) then 1 else 0)"
  by (simp add: SSSP_edge_def Let_def atomicMin_def)

lemma SSSP_fold:
  assumes "\<forall>d\<in>set es. d < length (nodes st)"
    and "current_length (getData st u) = c" and "c \<noteq> - 1"
  shows "length (nodes (foldl (SSSP_edge u) st es)) = length (nodes st)
     \<and> (\<forall>v. getData (foldl (SSSP_edge u) st es) v =
            (if v \<in> set es
             then (getData st v)\<lparr>current_length := min (current_length (getData st v)) (1 + c)\<rparr>
             else getData st v))
     \<and> SSSP_accum (foldl (SSSP_edge u) st es) = SSSP_accum st
           + of_nat (card {v \<in> set es. 1 + c < current_length (getData st v)})"
  using assms
proof (induction es arbitrary: st)
  case Nil
  then show ?case by simp
next
  case (Cons d es)
  let ?st1 = "SSSP_edge u st d"
  let ?S = "{v \<in> set (d # es). 1 + c < current_length (getData st v)}"
  let ?S1 = "{v \<in> set es. 1 + c < current_length (getData ?st1 v)}"
  from Cons.prems have d: "d < length (nodes st)" by simp
  have lt: "c < 1 + c" using Cons.prems(3) by (rule word_less_succ)
  have g1: "\<And>v. getData ?st1 v =
     (if v = d then (getData st v)\<lparr>current_length := min (current_length (getData st v)) (1 + c)\<rparr>
      else getData st v)"
    using SSSP_edge_getData[OF d, of u] Cons.prems(2) by simp
  have c1: "current_length (getData ?st1 u) = c"
    using lt Cons.prems(2) by (auto simp add: g1 min_def)
  have len1: "\<forall>d\<in>set es. d < length (nodes ?st1)"
    using Cons.prems(1) by (simp add: SSSP_edge_frame)
  note ih = Cons.IH[OF len1 c1 Cons.prems(3)]
  have S1: "?S1 = {v \<in> set es. 1 + c < current_length (getData st v)} - {d}"
    by (auto simp: g1 min_def)
  have card: "card ?S = (if 1 + c < current_length (getData st d) then 1 else 0) + card ?S1"
  proof (cases "1 + c < current_length (getData st d)")
    case True
    then have "?S = insert d {v \<in> set es. 1 + c < current_length (getData st v)}" by auto
    then have "card ?S = Suc (card ({v \<in> set es. 1 + c < current_length (getData st v)} - {d}))"
      by (simp add: card.insert_remove)
    with True S1 show ?thesis by simp
  next
    case False
    then have "?S = {v \<in> set es. 1 + c < current_length (getData st v)}" by auto
    moreover from False have "?S1 = {v \<in> set es. 1 + c < current_length (getData st v)}"
      unfolding S1 by auto
    ultimately show ?thesis using False by simp
  qed
  have acc1: "SSSP_accum ?st1 = SSSP_accum st
       + (if 1 + c < current_length (getData st d) then 1 else 0)"
    using SSSP_edge_accum[of u st d] Cons.prems(2) by simp
  show ?case
  proof (intro conjI allI)
    show "length (nodes (foldl (SSSP_edge u) st (d # es))) = length (nodes st)"
      using ih by (simp add: SSSP_edge_frame)
    show "SSSP_accum (foldl (SSSP_edge u) st (d # es)) = SSSP_accum st + of_nat (card ?S)"
      using ih acc1 card by simp
  next
    fix v
    show "getData (foldl (SSSP_edge u) st (d # es)) v =
            (if v \<in> set (d # es)
             then (getData st v)\<lparr>current_length := min (current_length (getData st v)) (1 + c)\<rparr>
             else getData st v)"
      using ih by (simp add: g1)
  qed
qed

lemma SSSP_op_skip:
  "\<not> old_length (getData st u) > current_length (getData st u) \<Longrightarrow> SSSP_op g u st = st"
  by (simp add: SSSP_op_def)

lemma SSSP_op_relax:
  assumes "wf_graph g" and "numNodes g = length (nodes st)" and "u < numNodes g"
    and "old_length (getData st u) > current_length (getData st u)"
  shows "(\<forall>v<numNodes g. current_length (getData (SSSP_op g u st) v) =
            (if v \<in> set (edge_dsts g ! u)
             then min (current_length (getData st v)) (1 + current_length (getData st u))
             else current_length (getData st v)))
     \<and> (\<forall>v<numNodes g. old_length (getData (SSSP_op g u st) v) =
            (if v = u then current_length (getData st u) else old_length (getData st v)))
     \<and> SSSP_accum (SSSP_op g u st) = SSSP_accum st
           + of_nat (card {v \<in> set (edge_dsts g ! u).
                1 + current_length (getData st u) < current_length (getData st v)})"
proof -
  let ?c = "current_length (getData st u)"
  let ?st0 = "map_node u (\<lambda>d. d\<lparr>old_length := current_length d\<rparr>) st"
  have op: "SSSP_op g u st = foldl (SSSP_edge u) ?st0 (edge_dsts g ! u)"
    using assms(4) by (simp add: SSSP_op_def)
  have g0: "\<And>v. getData ?st0 v = (if v = u then (getData st u)\<lparr>old_length := ?c\<rparr> else getData st v)"
    using assms(2,3) by (simp add: getData_map_node)
  have c0: "current_length (getData ?st0 u) = ?c" by (simp add: g0)
  have cl0: "\<And>v. current_length (getData ?st0 v) = current_length (getData st v)"
    by (simp add: g0)
  have ne: "?c \<noteq> - 1"
    using assms(4) by (metis word_order.extremum_strict)
  have es: "\<forall>d\<in>set (edge_dsts g ! u). d < length (nodes ?st0)"
    using wf_graph_edges[OF assms(1,3)] assms(2) by simp
  note fold = SSSP_fold[OF es c0 ne]
  show ?thesis
    unfolding op using fold by (simp add: cl0) (simp add: g0)
qed

lemma SSSP_loop_exit:
  assumes "SSSP_accum (SSSP_round g st) = 0"
  shows "SSSP_loop g st = Some (SSSP_sync_last g (SSSP_round g st))"
  using assms by (subst SSSP_loop.simps) (simp add: Let_def)

lemma SSSP_loop_continue:
  assumes "SSSP_accum (SSSP_round g st) \<noteq> 0"
  shows "SSSP_loop g st = SSSP_loop g (SSSP_sync_more (SSSP_round g st))"
  using assms by (subst SSSP_loop.simps) (simp add: Let_def)

lemma SSSP_loop_from_rounds:
  assumes "\<forall>j<k. SSSP_accum (SSSP_round g (SSSP_rounds g j st)) \<noteq> 0"
    and "SSSP_accum (SSSP_round g (SSSP_rounds g k st)) = 0"
  shows "SSSP_loop g st = Some (SSSP_sync_last g (SSSP_round g (SSSP_rounds g k st)))"
  using assms
proof (induction k arbitrary: st)
  case 0
  then show ?case by (simp add: SSSP_loop_exit)
next
  case (Suc k)
  from Suc.prems(1) have "SSSP_accum (SSSP_round g (SSSP_rounds g 0 st)) \<noteq> 0" by blast
  then have step: "SSSP_loop g st = SSSP_loop g (SSSP_sync_more (SSSP_round g st))"
    by (simp add: SSSP_loop_continue)
  have "\<forall>j<k. SSSP_accum (SSSP_round g (SSSP_rounds g j (SSSP_sync_more (SSSP_round g st)))) \<noteq> 0"
    using Suc.prems(1) by (metis Suc_less_eq SSSP_rounds.simps(2))
  from Suc.IH[OF this] Suc.prems(2) step show ?case by simp
qed

lemma SSSP_loop_to_rounds:
  assumes "SSSP_loop g st = Some st'"
  shows "\<exists>k. (\<forall>j<k. SSSP_accum (SSSP_round g (SSSP_rounds g j st)) \<noteq> 0)
     \<and> SSSP_accum (SSSP_round g (SSSP_rounds g k st)) = 0
     \<and> st' = SSSP_sync_last g (SSSP_round g (SSSP_rounds g k st))"
  using assms
proof (induction rule: SSSP_loop.raw_induct[rotated 1, consumes 1])
  case (1 loop g st st')
  show ?case
  proof (cases "SSSP_accum (SSSP_round g st) \<noteq> 0")
    case True
    with 1(2) have "loop g (SSSP_sync_more (SSSP_round g st)) = Some st'"
      by (simp add: Let_def)
    from 1(1)[OF this] obtain k where
      k: "\<forall>j<k. SSSP_accum (SSSP_round g (SSSP_rounds g j (SSSP_sync_more (SSSP_round g st)))) \<noteq> 0"
         "SSSP_accum (SSSP_round g (SSSP_rounds g k (SSSP_sync_more (SSSP_round g st)))) = 0"
         "st' = SSSP_sync_last g (SSSP_round g (SSSP_rounds g k (SSSP_sync_more (SSSP_round g st))))"
      by blast
    have "\<forall>j<Suc k. SSSP_accum (SSSP_round g (SSSP_rounds g j st)) \<noteq> 0"
    proof (intro allI impI)
      fix j assume "j < Suc k"
      then show "SSSP_accum (SSSP_round g (SSSP_rounds g j st)) \<noteq> 0"
        using True k(1) by (cases j) simp_all
    qed
    moreover have "SSSP_accum (SSSP_round g (SSSP_rounds g (Suc k) st)) = 0"
      using k(2) by simp
    moreover have "st' = SSSP_sync_last g (SSSP_round g (SSSP_rounds g (Suc k) st))"
      using k(3) by simp
    ultimately show ?thesis by blast
  next
    case False
    with 1(2) have "st' = SSSP_sync_last g (SSSP_round g st)"
      by (simp add: Let_def)
    with False have "(\<forall>j<0. SSSP_accum (SSSP_round g (SSSP_rounds g j st)) \<noteq> 0)
     \<and> SSSP_accum (SSSP_round g (SSSP_rounds g 0 st)) = 0
     \<and> st' = SSSP_sync_last g (SSSP_round g (SSSP_rounds g 0 st))"
      by simp
    then show ?thesis by blast
  qed
qed

lemma SSSP_edge_potential:
  assumes "dst < length (nodes st)"
  shows "SSSP_potential (SSSP_edge src st dst) \<le> SSSP_potential st
     \<and> (SSSP_accum (SSSP_edge src st dst) \<noteq> SSSP_accum st
          \<longrightarrow> SSSP_potential (SSSP_edge src st dst) < SSSP_potential st)"
proof -
  let ?new = "1 + current_length (getData st src)"
  let ?old = "current_length (nodes st ! dst)"
  let ?xs = "map (\<lambda>d. unat (current_length d)) (nodes st)"
  have nodes': "nodes (SSSP_edge src st dst)
      = (nodes st)[dst := (nodes st ! dst)\<lparr>current_length := min ?old ?new\<rparr>]"
    by (simp add: SSSP_edge_def Let_def atomicMin_def)
  have "map (\<lambda>d. unat (current_length d)) (nodes (SSSP_edge src st dst)) = ?xs[dst := unat (min ?old ?new)]"
    by (simp add: nodes' map_update)
  then have pot: "SSSP_potential (SSSP_edge src st dst) = sum_list ?xs + unat (min ?old ?new) - ?xs ! dst"
    using assms by (simp add: SSSP_potential_def sum_list_update)
  have xd: "?xs ! dst = unat ?old" using assms by simp
  have "?xs ! dst \<in> set ?xs" using assms by (simp only: nth_mem length_map)
  then have "?xs ! dst \<le> sum_list ?xs" by (rule member_le_sum_list) simp
  then have le: "unat ?old \<le> sum_list ?xs" by (simp only: xd)
  have "min ?old ?new \<le> ?old" by simp
  then have min_le: "unat (min ?old ?new) \<le> unat ?old"
    by (simp only: word_le_nat_alt)
  have part1: "SSSP_potential (SSSP_edge src st dst) \<le> SSSP_potential st"
    using pot xd le min_le by (simp add: SSSP_potential_def)
  have part2: "SSSP_potential (SSSP_edge src st dst) < SSSP_potential st"
    if "SSSP_accum (SSSP_edge src st dst) \<noteq> SSSP_accum st"
  proof -
    from that have "?new < ?old"
      by (simp add: SSSP_edge_accum getData_def split: if_splits)
    then have "min ?old ?new = ?new" and "unat ?new < unat ?old"
      by (simp_all add: min_absorb2 word_less_nat_alt)
    then have "unat (min ?old ?new) < unat ?old" by simp
    with pot xd le show ?thesis by (simp add: SSSP_potential_def)
  qed
  from part1 part2 show ?thesis by blast
qed

lemma SSSP_fold_potential:
  assumes "\<forall>d\<in>set es. d < length (nodes st)"
  shows "SSSP_potential (foldl (SSSP_edge u) st es) \<le> SSSP_potential st
     \<and> (SSSP_accum (foldl (SSSP_edge u) st es) \<noteq> SSSP_accum st
          \<longrightarrow> SSSP_potential (foldl (SSSP_edge u) st es) < SSSP_potential st)
     \<and> length (nodes (foldl (SSSP_edge u) st es)) = length (nodes st)"
  using assms
proof (induction es arbitrary: st)
  case Nil
  then show ?case by simp
next
  case (Cons d es)
  from Cons.prems have d: "d < length (nodes st)" by simp
  have "\<forall>e\<in>set es. e < length (nodes (SSSP_edge u st d))"
    using Cons.prems by (simp add: SSSP_edge_frame)
  note ih = Cons.IH[OF this]
  note hd = SSSP_edge_potential[OF d, of u]
  let ?st1 = "SSSP_edge u st d"
  let ?st' = "foldl (SSSP_edge u) ?st1 es"
  have le: "SSSP_potential ?st' \<le> SSSP_potential st" using ih hd by linarith
  have lt: "SSSP_potential ?st' < SSSP_potential st" if "SSSP_accum ?st' \<noteq> SSSP_accum st"
  proof (cases "SSSP_accum ?st1 = SSSP_accum st")
    case True
    with that ih have "SSSP_potential ?st' < SSSP_potential ?st1" by simp
    with hd show ?thesis by linarith
  next
    case False
    with hd have "SSSP_potential ?st1 < SSSP_potential st" by simp
    with ih show ?thesis by linarith
  qed
  have "length (nodes ?st') = length (nodes st)" using ih by (simp add: SSSP_edge_frame)
  with le lt show ?case by simp
qed

lemma SSSP_potential_map_node_old_length [simp]:
  "SSSP_potential (map_node u (\<lambda>d. d\<lparr>old_length := current_length d\<rparr>) st) = SSSP_potential st"
proof (cases "u < length (nodes st)")
  case True
  let ?f = "\<lambda>d. unat (current_length d)"
  have "map ?f ((nodes st)[u := (nodes st ! u)\<lparr>old_length := current_length (nodes st ! u)\<rparr>])
      = (map ?f (nodes st))[u := map ?f (nodes st) ! u]"
    using True by (simp add: map_update)
  also have "\<dots> = map ?f (nodes st)" by (rule list_update_id)
  finally show ?thesis by (simp add: SSSP_potential_def)
next
  case False
  then show ?thesis by (simp add: SSSP_potential_def list_update_beyond)
qed

lemma SSSP_op_potential:
  assumes "wf_graph g" and "numNodes g = length (nodes st)" and "u < numNodes g"
  shows "SSSP_potential (SSSP_op g u st) \<le> SSSP_potential st
     \<and> (SSSP_accum (SSSP_op g u st) \<noteq> SSSP_accum st
          \<longrightarrow> SSSP_potential (SSSP_op g u st) < SSSP_potential st)
     \<and> length (nodes (SSSP_op g u st)) = length (nodes st)"
proof (cases "old_length (getData st u) > current_length (getData st u)")
  case True
  let ?st0 = "map_node u (\<lambda>d. d\<lparr>old_length := current_length d\<rparr>) st"
  have es: "\<forall>d\<in>set (edge_dsts g ! u). d < length (nodes ?st0)"
    using wf_graph_edges[OF assms(1,3)] assms(2) by simp
  from SSSP_fold_potential[OF es, of u] True show ?thesis
    by (simp add: SSSP_op_def)
next
  case False
  then show ?thesis by (simp add: SSSP_op_def)
qed

lemma SSSP_do_all_potential:
  assumes "wf_graph g" and "numNodes g = length (nodes st)" and "\<forall>u\<in>set us. u < numNodes g"
  shows "SSSP_potential (do_all (SSSP_op g) us st) \<le> SSSP_potential st
     \<and> (SSSP_accum (do_all (SSSP_op g) us st) \<noteq> SSSP_accum st
          \<longrightarrow> SSSP_potential (do_all (SSSP_op g) us st) < SSSP_potential st)
     \<and> length (nodes (do_all (SSSP_op g) us st)) = length (nodes st)"
  using assms
proof (induction us arbitrary: st)
  case Nil
  then show ?case by simp
next
  case (Cons u us)
  from Cons.prems have u: "u < numNodes g" by simp
  note op = SSSP_op_potential[OF Cons.prems(1,2) u]
  have "numNodes g = length (nodes (SSSP_op g u st))" using op Cons.prems(2) by simp
  moreover from Cons.prems(3) have "\<forall>u\<in>set us. u < numNodes g" by simp
  ultimately have ih: "SSSP_potential (do_all (SSSP_op g) us (SSSP_op g u st)) \<le> SSSP_potential (SSSP_op g u st)
     \<and> (SSSP_accum (do_all (SSSP_op g) us (SSSP_op g u st)) \<noteq> SSSP_accum (SSSP_op g u st)
          \<longrightarrow> SSSP_potential (do_all (SSSP_op g) us (SSSP_op g u st)) < SSSP_potential (SSSP_op g u st))
     \<and> length (nodes (do_all (SSSP_op g) us (SSSP_op g u st))) = length (nodes (SSSP_op g u st))"
    using Cons.IH[OF Cons.prems(1)] by blast
  let ?st1 = "SSSP_op g u st"
  let ?st' = "do_all (SSSP_op g) us ?st1"
  have le: "SSSP_potential ?st' \<le> SSSP_potential st" using ih op by linarith
  have lt: "SSSP_potential ?st' < SSSP_potential st" if "SSSP_accum ?st' \<noteq> SSSP_accum st"
  proof (cases "SSSP_accum ?st1 = SSSP_accum st")
    case True
    with that ih have "SSSP_potential ?st' < SSSP_potential ?st1" by simp
    with op show ?thesis by linarith
  next
    case False
    with op have "SSSP_potential ?st1 < SSSP_potential st" by simp
    with ih show ?thesis by linarith
  qed
  have "length (nodes ?st') = length (nodes st)" using ih op by simp
  with le lt show ?case by simp
qed

lemma SSSP_round_potential:
  assumes "wf_graph g" and "numNodes g = length (nodes st)"
  shows "(SSSP_accum (SSSP_round g st) \<noteq> 0 \<longrightarrow> SSSP_potential (SSSP_round g st) < SSSP_potential st)
     \<and> length (nodes (SSSP_round g st)) = length (nodes st)"
proof -
  have "numNodes g = length (nodes (st\<lparr>SSSP_accum := 0\<rparr>))" using assms(2) by simp
  from SSSP_do_all_potential[OF assms(1) this, of "[0..<numNodes g]"]
  show ?thesis by (simp add: SSSP_round_def SSSP_potential_def)
qed

lemma SSSP_loop_terminates:
  assumes "wf_graph g" and "numNodes g = length (nodes st)"
  shows "\<exists>st'. SSSP_loop g st = Some st'"
  using assms(2)
proof (induction "SSSP_potential st" arbitrary: st rule: less_induct)
  case less
  show ?case
  proof (cases "SSSP_accum (SSSP_round g st) = 0")
    case True
    then show ?thesis by (simp add: SSSP_loop_exit)
  next
    case False
    let ?st1 = "SSSP_sync_more (SSSP_round g st)"
    from SSSP_round_potential[OF assms(1) less.prems] False
    have "SSSP_potential ?st1 < SSSP_potential st" "numNodes g = length (nodes ?st1)"
      using less.prems by (simp_all add: SSSP_sync_more_def sync_def SSSP_potential_def)
    from less.hyps[OF this] SSSP_loop_continue[OF False] show ?thesis by simp
  qed
qed

subsection \<open>What a round does\<close>

lemma do_all_foldl: "do_all f us st = foldl (\<lambda>s u. f u s) st us"
  by (induction us arbitrary: st) simp_all

lemma SSSP_op_effect:
  assumes "wf_graph g" and "numNodes g = length (nodes st)" and "u < numNodes g"
  shows "length (nodes (SSSP_op g u st)) = length (nodes st)
     \<and> (\<forall>v<numNodes g. current_length (getData (SSSP_op g u st) v) \<le> current_length (getData st v))
     \<and> (\<forall>v<numNodes g. old_length (getData (SSSP_op g u st) v) =
            (if v = u \<and> old_length (getData st u) > current_length (getData st u)
             then current_length (getData st u) else old_length (getData st v)))
     \<and> (old_length (getData st u) > current_length (getData st u)
          \<longrightarrow> (\<forall>v\<in>set (edge_dsts g ! u).
                 current_length (getData (SSSP_op g u st) v) \<le> 1 + current_length (getData st u)))"
proof (cases "old_length (getData st u) > current_length (getData st u)")
  case True
  note relax = SSSP_op_relax[OF assms True]
  from relax have cl: "\<And>v. v < numNodes g \<Longrightarrow> current_length (getData (SSSP_op g u st) v) =
            (if v \<in> set (edge_dsts g ! u)
             then min (current_length (getData st v)) (1 + current_length (getData st u))
             else current_length (getData st v))"
    by blast
  from relax have ol: "\<And>v. v < numNodes g \<Longrightarrow> old_length (getData (SSSP_op g u st) v) =
            (if v = u then current_length (getData st u) else old_length (getData st v))"
    by blast
  have len: "length (nodes (SSSP_op g u st)) = length (nodes st)"
    using SSSP_op_potential[OF assms] by blast
  have a: "\<forall>v<numNodes g. current_length (getData (SSSP_op g u st) v) \<le> current_length (getData st v)"
    by (simp add: cl)
  have b: "\<forall>v<numNodes g. old_length (getData (SSSP_op g u st) v) =
            (if v = u \<and> old_length (getData st u) > current_length (getData st u)
             then current_length (getData st u) else old_length (getData st v))"
    using True by (simp add: ol)
  have c: "\<forall>v\<in>set (edge_dsts g ! u).
                 current_length (getData (SSSP_op g u st) v) \<le> 1 + current_length (getData st u)"
  proof
    fix v assume v: "v \<in> set (edge_dsts g ! u)"
    with wf_graph_edges[OF assms(1,3)] have "v < numNodes g" by blast
    from cl[OF this] v show "current_length (getData (SSSP_op g u st) v) \<le> 1 + current_length (getData st u)"
      by simp
  qed
  from len a b c show ?thesis by blast
next
  case False
  then have "SSSP_op g u st = st" by (rule SSSP_op_skip)
  with False show ?thesis by simp
qed

lemma SSSP_pass_relaxes:
  assumes "wf_graph g" and "numNodes g = length (nodes st)"
    and "distinct us" and "\<forall>u\<in>set us. u < numNodes g"
  shows "length (nodes (do_all (SSSP_op g) us st)) = length (nodes st)
     \<and> (\<forall>v<numNodes g. current_length (getData (do_all (SSSP_op g) us st) v) \<le> current_length (getData st v))
     \<and> (\<forall>w<numNodes g. w \<notin> set us \<longrightarrow>
           old_length (getData (do_all (SSSP_op g) us st) w) = old_length (getData st w))
     \<and> (\<forall>w\<in>set us.
           (old_length (getData st w) > current_length (getData st w)
              \<longrightarrow> old_length (getData (do_all (SSSP_op g) us st) w) \<noteq> old_length (getData st w))
         \<and> (old_length (getData (do_all (SSSP_op g) us st) w) \<noteq> old_length (getData st w)
              \<longrightarrow> old_length (getData (do_all (SSSP_op g) us st) w) < old_length (getData st w)
                \<and> current_length (getData (do_all (SSSP_op g) us st) w)
                    \<le> old_length (getData (do_all (SSSP_op g) us st) w)
                \<and> old_length (getData (do_all (SSSP_op g) us st) w) \<le> current_length (getData st w)
                \<and> (\<forall>v\<in>set (edge_dsts g ! w).
                      current_length (getData (do_all (SSSP_op g) us st) v)
                        \<le> 1 + old_length (getData (do_all (SSSP_op g) us st) w))))"
  using assms(2,3,4)
proof (induction us arbitrary: st)
  case Nil
  then show ?case by simp
next
  case (Cons u us)
  let ?s1 = "SSSP_op g u st"
  let ?s' = "do_all (SSSP_op g) us ?s1"
  from Cons.prems have u: "u < numNodes g" and un: "u \<notin> set us" and d: "distinct us"
    and us: "\<forall>u\<in>set us. u < numNodes g" by simp_all
  note op = SSSP_op_effect[OF assms(1) Cons.prems(1) u]
  from op have len1: "numNodes g = length (nodes ?s1)" using Cons.prems(1) by simp
  from op have cl1: "\<And>v. v < numNodes g \<Longrightarrow> current_length (getData ?s1 v) \<le> current_length (getData st v)"
    by blast
  from op have ol1: "\<And>v. v < numNodes g \<Longrightarrow> old_length (getData ?s1 v) =
            (if v = u \<and> old_length (getData st u) > current_length (getData st u)
             then current_length (getData st u) else old_length (getData st v))"
    by blast
  from op have e1: "old_length (getData st u) > current_length (getData st u)
      \<Longrightarrow> \<forall>v\<in>set (edge_dsts g ! u). current_length (getData ?s1 v) \<le> 1 + current_length (getData st u)"
    by blast
  note IH = Cons.IH[OF len1 d us]
  from IH have len': "length (nodes ?s') = length (nodes ?s1)" by blast
  from IH have cl': "\<And>v. v < numNodes g \<Longrightarrow> current_length (getData ?s' v) \<le> current_length (getData ?s1 v)"
    by blast
  from IH have ol': "\<And>w. w < numNodes g \<Longrightarrow> w \<notin> set us \<Longrightarrow> old_length (getData ?s' w) = old_length (getData ?s1 w)"
    by blast
  from IH have in': "\<And>w. w \<in> set us \<Longrightarrow>
           (old_length (getData ?s1 w) > current_length (getData ?s1 w)
              \<longrightarrow> old_length (getData ?s' w) \<noteq> old_length (getData ?s1 w))
         \<and> (old_length (getData ?s' w) \<noteq> old_length (getData ?s1 w)
              \<longrightarrow> old_length (getData ?s' w) < old_length (getData ?s1 w)
                \<and> current_length (getData ?s' w) \<le> old_length (getData ?s' w)
                \<and> old_length (getData ?s' w) \<le> current_length (getData ?s1 w)
                \<and> (\<forall>v\<in>set (edge_dsts g ! w).
                      current_length (getData ?s' v) \<le> 1 + old_length (getData ?s' w)))"
    by blast
  have A: "length (nodes ?s') = length (nodes st)" using len' len1 Cons.prems(1) by simp
  have B: "\<forall>v<numNodes g. current_length (getData ?s' v) \<le> current_length (getData st v)"
    using cl' cl1 by (meson order_trans)
  have C: "\<forall>w<numNodes g. w \<notin> set (u # us) \<longrightarrow> old_length (getData ?s' w) = old_length (getData st w)"
    using ol' ol1 by simp
  have D: "\<forall>w\<in>set (u # us).
           (old_length (getData st w) > current_length (getData st w)
              \<longrightarrow> old_length (getData ?s' w) \<noteq> old_length (getData st w))
         \<and> (old_length (getData ?s' w) \<noteq> old_length (getData st w)
              \<longrightarrow> old_length (getData ?s' w) < old_length (getData st w)
                \<and> current_length (getData ?s' w) \<le> old_length (getData ?s' w)
                \<and> old_length (getData ?s' w) \<le> current_length (getData st w)
                \<and> (\<forall>v\<in>set (edge_dsts g ! w).
                      current_length (getData ?s' v) \<le> 1 + old_length (getData ?s' w)))"
  proof
    fix w assume w: "w \<in> set (u # us)"
    show "(old_length (getData st w) > current_length (getData st w)
              \<longrightarrow> old_length (getData ?s' w) \<noteq> old_length (getData st w))
         \<and> (old_length (getData ?s' w) \<noteq> old_length (getData st w)
              \<longrightarrow> old_length (getData ?s' w) < old_length (getData st w)
                \<and> current_length (getData ?s' w) \<le> old_length (getData ?s' w)
                \<and> old_length (getData ?s' w) \<le> current_length (getData st w)
                \<and> (\<forall>v\<in>set (edge_dsts g ! w).
                      current_length (getData ?s' v) \<le> 1 + old_length (getData ?s' w)))"
    proof (cases "w = u")
      case True
      have o': "old_length (getData ?s' u) = old_length (getData ?s1 u)" using ol'[OF u un] .
      show ?thesis
      proof (cases "old_length (getData st u) > current_length (getData st u)")
        case gt: True
        have o1: "old_length (getData ?s1 u) = current_length (getData st u)"
          using ol1[OF u] gt by simp
        have edges: "\<forall>v\<in>set (edge_dsts g ! u).
            current_length (getData ?s' v) \<le> 1 + current_length (getData st u)"
        proof
          fix v assume v: "v \<in> set (edge_dsts g ! u)"
          with wf_graph_edges[OF assms(1) u] have vn: "v < numNodes g" by blast
          from cl'[OF vn] e1[OF gt] v
          show "current_length (getData ?s' v) \<le> 1 + current_length (getData st u)"
            by (meson order_trans)
        qed
        have "current_length (getData ?s' u) \<le> current_length (getData st u)"
          using B u by blast
        with gt o1 o' edges show ?thesis unfolding True by simp
      next
        case le: False
        have "old_length (getData ?s1 u) = old_length (getData st u)"
          using ol1[OF u] le by simp
        with o' le show ?thesis unfolding True by simp
      qed
    next
      case False
      with w have wus: "w \<in> set us" by simp
      with us have wn: "w < numNodes g" by blast
      have o1: "old_length (getData ?s1 w) = old_length (getData st w)"
        using ol1[OF wn] False by simp
      note i = in'[OF wus, unfolded o1]
      from i cl1[OF wn] show ?thesis
        by (meson order_trans order_le_less_trans)
    qed
  qed
  from A B C D show ?case unfolding do_all.simps by blast
qed

lemma SSSP_round_relaxes:
  assumes "wf_graph g" and "numNodes g = length (nodes st)"
  shows "(\<forall>v<numNodes g. current_length (getData (SSSP_round g st) v) \<le> current_length (getData st v))
     \<and> (\<forall>w<numNodes g.
           (old_length (getData st w) > current_length (getData st w)
              \<longrightarrow> old_length (getData (SSSP_round g st) w) \<noteq> old_length (getData st w))
         \<and> (old_length (getData (SSSP_round g st) w) \<noteq> old_length (getData st w)
              \<longrightarrow> old_length (getData (SSSP_round g st) w) < old_length (getData st w)
                \<and> current_length (getData (SSSP_round g st) w)
                    \<le> old_length (getData (SSSP_round g st) w)
                \<and> old_length (getData (SSSP_round g st) w) \<le> current_length (getData st w)
                \<and> (\<forall>v\<in>set (edge_dsts g ! w).
                      current_length (getData (SSSP_round g st) v)
                        \<le> 1 + old_length (getData (SSSP_round g st) w))))"
proof -
  have len: "numNodes g = length (nodes (st\<lparr>SSSP_accum := 0\<rparr>))" using assms(2) by simp
  have d: "distinct [0..<numNodes g]" and r: "\<forall>u\<in>set [0..<numNodes g]. u < numNodes g" by simp_all
  from SSSP_pass_relaxes[OF assms(1) len d r] show ?thesis
    unfolding SSSP_round_def[symmetric] by simp
qed

lemma SSSP_round_improves:
  assumes "wf_graph g" and "numNodes g = length (nodes st)"
    and "SSSP_accum (SSSP_round g st) \<noteq> 0"
  shows "\<exists>v<numNodes g. current_length (getData (SSSP_round g st) v) < current_length (getData st v)"
proof (rule ccontr)
  assume n: "\<not> ?thesis"
  from SSSP_round_relaxes[OF assms(1,2)]
  have le: "\<forall>v<numNodes g. current_length (getData (SSSP_round g st) v) \<le> current_length (getData st v)"
    by blast
  from SSSP_round_potential[OF assms(1,2)] assms(3)
  have pot: "SSSP_potential (SSSP_round g st) < SSSP_potential st"
    and len: "length (nodes (SSSP_round g st)) = length (nodes st)" by simp_all
  have "map (\<lambda>d. unat (current_length d)) (nodes (SSSP_round g st))
      = map (\<lambda>d. unat (current_length d)) (nodes st)"
  proof (rule nth_equalityI)
    show "length (map (\<lambda>d. unat (current_length d)) (nodes (SSSP_round g st)))
        = length (map (\<lambda>d. unat (current_length d)) (nodes st))" using len by simp
  next
    fix i assume "i < length (map (\<lambda>d. unat (current_length d)) (nodes (SSSP_round g st)))"
    then have i: "i < numNodes g" using len assms(2) by simp
    with n le have "current_length (getData (SSSP_round g st) i) = current_length (getData st i)"
      by (meson order_le_imp_less_or_eq)
    with i len assms(2)
    show "map (\<lambda>d. unat (current_length d)) (nodes (SSSP_round g st)) ! i
        = map (\<lambda>d. unat (current_length d)) (nodes st) ! i"
      by (simp add: getData_def)
  qed
  then have "SSSP_potential (SSSP_round g st) = SSSP_potential st"
    by (simp add: SSSP_potential_def)
  with pot show False by simp
qed

lemma sync_log_SSSP_rounds:
  "sync_log (SSSP_rounds g k st) = sync_log st
     @ replicate k (Sync writeDestination readSource Reduce_min F_current_length True ''SSSP_cur_len'')"
proof (induction k arbitrary: st)
  case 0
  show ?case by simp
next
  case (Suc k)
  show ?case
    by (simp add: Suc SSSP_sync_more_def sync_log_sync sync_log_SSSP_round replicate_app_Cons_same)
qed

subsection \<open>The rounds and the sync calls of the breadth-first search\<close>

text \<open>
  C6: a round of \<^verbatim>\<open>SSSP::go\<close> resets the accumulator and applies \<^verbatim>\<open>SSSP::operator()\<close>
  to every node of the range, one after the other. The operator leaves the state as it
  is at a node whose \<open>old_length\<close> is not greater than its \<open>current_length\<close>; at a
  node \<open>u\<close> with \<open>old_length > current_length\<close> it sets \<open>old_length\<close> to
  \<open>current_length\<close>, replaces the distance of every destination of an edge of \<open>u\<close>
  by its minimum with \<open>1 + current_length u\<close>, leaves the other distances, and adds
  to the accumulator the number of destinations whose distance became strictly
  smaller. Hence in a round no distance grows; every node whose distance at the start
  of the round is below its \<open>old_length\<close> is relaxed in the round; and a node is
  relaxed (its \<open>old_length\<close> changes) only with a distance below its \<open>old_length\<close>,
  which becomes its new \<open>old_length\<close>, and then every destination of its edges ends
  the round at most one step farther. A round whose accumulator is not zero has
  strictly improved a distance. The round loop always returns, and it returns after
  round \<open>k\<close> exactly when the accumulator is zero after round \<open>k\<close> and was not zero
  after any earlier round. (One host: the reduction of the accumulator over the hosts
  is the accumulator of the host.)
\<close>

theorem SSSP_round_relaxes_improved_nodes:
  assumes "wf_graph g" and "numNodes g = length (nodes st)" and "u < numNodes g"
  shows "(if old_length (getData st u) > current_length (getData st u)
          then (\<forall>v<numNodes g. current_length (getData (SSSP_op g u st) v) =
                  (if v \<in> set (edge_dsts g ! u)
                   then min (current_length (getData st v)) (1 + current_length (getData st u))
                   else current_length (getData st v)))
             \<and> old_length (getData (SSSP_op g u st) u) = current_length (getData st u)
             \<and> SSSP_accum (SSSP_op g u st) = SSSP_accum st
                 + of_nat (card {v \<in> set (edge_dsts g ! u).
                     1 + current_length (getData st u) < current_length (getData st v)})
          else SSSP_op g u st = st)
     \<and> SSSP_round g st = foldl (\<lambda>s w. SSSP_op g w s) (st\<lparr>SSSP_accum := 0\<rparr>) [0..<numNodes g]
     \<and> (\<forall>v<numNodes g. current_length (getData (SSSP_round g st) v) \<le> current_length (getData st v))
     \<and> (\<forall>w<numNodes g.
           (old_length (getData st w) > current_length (getData st w)
              \<longrightarrow> old_length (getData (SSSP_round g st) w) \<noteq> old_length (getData st w))
         \<and> (old_length (getData (SSSP_round g st) w) \<noteq> old_length (getData st w)
              \<longrightarrow> old_length (getData (SSSP_round g st) w) < old_length (getData st w)
                \<and> current_length (getData (SSSP_round g st) w)
                    \<le> old_length (getData (SSSP_round g st) w)
                \<and> old_length (getData (SSSP_round g st) w) \<le> current_length (getData st w)
                \<and> (\<forall>v\<in>set (edge_dsts g ! w).
                      current_length (getData (SSSP_round g st) v)
                        \<le> 1 + old_length (getData (SSSP_round g st) w))))
     \<and> (SSSP_accum (SSSP_round g st) \<noteq> 0
          \<longrightarrow> (\<exists>v<numNodes g. current_length (getData (SSSP_round g st) v) < current_length (getData st v)))
     \<and> (\<exists>st'. SSSP_loop g st = Some st')
     \<and> (\<forall>st'. SSSP_loop g st = Some st' \<longleftrightarrow>
           (\<exists>k. (\<forall>j<k. SSSP_accum (SSSP_round g (SSSP_rounds g j st)) \<noteq> 0)
              \<and> SSSP_accum (SSSP_round g (SSSP_rounds g k st)) = 0
              \<and> st' = SSSP_sync_last g (SSSP_round g (SSSP_rounds g k st))))"
proof -
  have A: "if old_length (getData st u) > current_length (getData st u)
          then (\<forall>v<numNodes g. current_length (getData (SSSP_op g u st) v) =
                  (if v \<in> set (edge_dsts g ! u)
                   then min (current_length (getData st v)) (1 + current_length (getData st u))
                   else current_length (getData st v)))
             \<and> old_length (getData (SSSP_op g u st) u) = current_length (getData st u)
             \<and> SSSP_accum (SSSP_op g u st) = SSSP_accum st
                 + of_nat (card {v \<in> set (edge_dsts g ! u).
                     1 + current_length (getData st u) < current_length (getData st v)})
          else SSSP_op g u st = st"
  proof (cases "old_length (getData st u) > current_length (getData st u)")
    case True
    from SSSP_op_relax[OF assms True] assms(3) True show ?thesis by simp
  next
    case False
    then show ?thesis by (simp add: SSSP_op_skip)
  qed
  have B: "SSSP_round g st = foldl (\<lambda>s w. SSSP_op g w s) (st\<lparr>SSSP_accum := 0\<rparr>) [0..<numNodes g]"
    unfolding SSSP_round_def by (rule do_all_foldl)
  note CD = SSSP_round_relaxes[OF assms(1,2)]
  have E: "SSSP_accum (SSSP_round g st) \<noteq> 0
          \<longrightarrow> (\<exists>v<numNodes g. current_length (getData (SSSP_round g st) v) < current_length (getData st v))"
    using SSSP_round_improves[OF assms(1,2)] by blast
  have F: "\<exists>st'. SSSP_loop g st = Some st'"
    using assms(1,2) by (rule SSSP_loop_terminates)
  have G: "\<forall>st'. SSSP_loop g st = Some st' \<longleftrightarrow>
           (\<exists>k. (\<forall>j<k. SSSP_accum (SSSP_round g (SSSP_rounds g j st)) \<noteq> 0)
              \<and> SSSP_accum (SSSP_round g (SSSP_rounds g k st)) = 0
              \<and> st' = SSSP_sync_last g (SSSP_round g (SSSP_rounds g k st)))"
  proof
    fix st'
    show "SSSP_loop g st = Some st' \<longleftrightarrow>
           (\<exists>k. (\<forall>j<k. SSSP_accum (SSSP_round g (SSSP_rounds g j st)) \<noteq> 0)
              \<and> SSSP_accum (SSSP_round g (SSSP_rounds g k st)) = 0
              \<and> st' = SSSP_sync_last g (SSSP_round g (SSSP_rounds g k st)))"
      using SSSP_loop_to_rounds[of g st st'] SSSP_loop_from_rounds[of _ g st] by blast
  qed
  from A B CD E F G show ?thesis by (intro conjI) (rule A B E F G CD[THEN conjunct1] CD[THEN conjunct2])+
qed

theorem SSSP_round_relaxes_improved_nodes_witness:
  "wf_graph path_graph
   \<and> numNodes path_graph = length (nodes (FirstIterationSSSP_go path_graph
        (projr (InitializeIteration_go path_graph (start_state path_graph)))))
   \<and> 1 < numNodes path_graph \<and> 2 < numNodes path_graph
   \<and> old_length (getData (FirstIterationSSSP_go path_graph
        (projr (InitializeIteration_go path_graph (start_state path_graph)))) 1)
      > current_length (getData (FirstIterationSSSP_go path_graph
        (projr (InitializeIteration_go path_graph (start_state path_graph)))) 1)
   \<and> current_length (getData (SSSP_op path_graph 1 (FirstIterationSSSP_go path_graph
        (projr (InitializeIteration_go path_graph (start_state path_graph))))) 2) = 2
   \<and> old_length (getData (SSSP_round path_graph (FirstIterationSSSP_go path_graph
        (projr (InitializeIteration_go path_graph (start_state path_graph))))) 1)
      \<noteq> old_length (getData (FirstIterationSSSP_go path_graph
        (projr (InitializeIteration_go path_graph (start_state path_graph)))) 1)
   \<and> current_length (getData (SSSP_round path_graph (FirstIterationSSSP_go path_graph
        (projr (InitializeIteration_go path_graph (start_state path_graph))))) 2)
      \<le> 1 + old_length (getData (SSSP_round path_graph (FirstIterationSSSP_go path_graph
        (projr (InitializeIteration_go path_graph (start_state path_graph))))) 1)
   \<and> (\<exists>st'. SSSP_loop path_graph (FirstIterationSSSP_go path_graph
        (projr (InitializeIteration_go path_graph (start_state path_graph)))) = Some st')"
proof -
  let ?st = "FirstIterationSSSP_go path_graph
        (projr (InitializeIteration_go path_graph (start_state path_graph)))"
  have wf: "wf_graph path_graph" by code_simp
  have len: "numNodes path_graph = length (nodes ?st)" by code_simp
  have u: "1 < numNodes path_graph" and v: "2 < numNodes path_graph" by code_simp+
  have gt: "old_length (getData ?st 1) > current_length (getData ?st 1)" by code_simp
  have e: "edge_dsts path_graph ! 1 = [2]" by code_simp
  have c1: "current_length (getData ?st 1) = 1" and c2: "current_length (getData ?st 2) = infinity"
    by code_simp+
  note inst = SSSP_round_relaxes_improved_nodes[OF wf len u]
  from inst[THEN conjunct1] gt
  have "\<forall>v<numNodes path_graph. current_length (getData (SSSP_op path_graph 1 ?st) v) =
                  (if v \<in> set (edge_dsts path_graph ! 1)
                   then min (current_length (getData ?st v)) (1 + current_length (getData ?st 1))
                   else current_length (getData ?st v))"
    by simp
  from this[rule_format, OF v]
  have "current_length (getData (SSSP_op path_graph 1 ?st) 2) =
          (if 2 \<in> set [2::nat] then min infinity (1 + 1) else infinity)"
    unfolding e c1 c2 .
  then have op2: "current_length (getData (SSSP_op path_graph 1 ?st) 2) = 2"
    by (simp add: infinity_numeral)
  note node = inst[THEN conjunct2, THEN conjunct2, THEN conjunct2, THEN conjunct1, rule_format, OF u]
  from node[THEN conjunct1] gt
  have r1: "old_length (getData (SSSP_round path_graph ?st) 1) \<noteq> old_length (getData ?st 1)"
    by (rule mp)
  from node[THEN conjunct2] r1
  have "\<forall>v\<in>set (edge_dsts path_graph ! 1).
          current_length (getData (SSSP_round path_graph ?st) v)
            \<le> 1 + old_length (getData (SSSP_round path_graph ?st) 1)"
    by blast
  then have r2: "current_length (getData (SSSP_round path_graph ?st) 2)
            \<le> 1 + old_length (getData (SSSP_round path_graph ?st) 1)"
    unfolding e by simp
  from inst have t: "\<exists>st'. SSSP_loop path_graph ?st = Some st'" by blast
  from wf len u v gt op2 r1 r2 t show ?thesis by (intro conjI)
qed

text \<open>
  C7, amended: when the breadth-first search returns, its sync calls are, in order:
  the bitset-filtered min-reduce of \<open>current_length\<close> of the first round (write
  location destination, read location source), one such bitset-filtered call for every
  round whose accumulator is not zero (the loop runs \<open>k\<close> rounds with a non-zero
  accumulator, then one round with the accumulator zero, and makes exactly \<open>k\<close> of
  these calls), and one last min-reduce with write location destination and read
  location any, which is made without the bitset under a vertex cut and with the
  bitset otherwise. Only this last call depends on the partitioning.
\<close>

theorem SSSP_go_syncs:
  assumes "SSSP_go g st = Some st'"
  shows "\<exists>k. (\<forall>j<k. SSSP_accum (SSSP_round g (SSSP_rounds g j (FirstIterationSSSP_go g st))) \<noteq> 0)
     \<and> SSSP_accum (SSSP_round g (SSSP_rounds g k (FirstIterationSSSP_go g st))) = 0
     \<and> sync_log st' = sync_log st
           @ Sync writeDestination readSource Reduce_min F_current_length True ''FirstIterationSSSP_cur_len''
           # replicate k (Sync writeDestination readSource Reduce_min F_current_length True ''SSSP_cur_len'')
           @ [if vertex_cut g
              then Sync writeDestination readAny Reduce_min F_current_length False ''SSSP_cur_len_any_v''
              else Sync writeDestination readAny Reduce_min F_current_length True ''SSSP_cur_len_any'']"
proof -
  let ?s0 = "FirstIterationSSSP_go g st"
  from SSSP_loop_to_rounds[OF assms[unfolded SSSP_go_def]] obtain k where
    k1: "\<forall>j<k. SSSP_accum (SSSP_round g (SSSP_rounds g j ?s0)) \<noteq> 0"
    and k2: "SSSP_accum (SSSP_round g (SSSP_rounds g k ?s0)) = 0"
    and st': "st' = SSSP_sync_last g (SSSP_round g (SSSP_rounds g k ?s0))"
    by blast
  have "sync_log st' = sync_log st
           @ Sync writeDestination readSource Reduce_min F_current_length True ''FirstIterationSSSP_cur_len''
           # replicate k (Sync writeDestination readSource Reduce_min F_current_length True ''SSSP_cur_len'')
           @ [if vertex_cut g
              then Sync writeDestination readAny Reduce_min F_current_length False ''SSSP_cur_len_any_v''
              else Sync writeDestination readAny Reduce_min F_current_length True ''SSSP_cur_len_any'']"
    unfolding st'
    by (simp add: SSSP_sync_last_def sync_log_sync sync_log_SSSP_round sync_log_SSSP_rounds
        sync_log_FirstIterationSSSP_go)
  with k1 k2 show ?thesis by blast
qed

theorem SSSP_go_syncs_witness:
  "SSSP_go path_graph_vcut (projr (InitializeIteration_go path_graph_vcut (start_state path_graph_vcut)))
     = Some (the (SSSP_go path_graph_vcut (projr (InitializeIteration_go path_graph_vcut (start_state path_graph_vcut)))))
   \<and> SSSP_accum (SSSP_round path_graph_vcut (FirstIterationSSSP_go path_graph_vcut
        (projr (InitializeIteration_go path_graph_vcut (start_state path_graph_vcut))))) \<noteq> 0
   \<and> SSSP_accum (SSSP_round path_graph_vcut (SSSP_sync_more (SSSP_round path_graph_vcut
        (FirstIterationSSSP_go path_graph_vcut
          (projr (InitializeIteration_go path_graph_vcut (start_state path_graph_vcut))))))) = 0
   \<and> sync_log (the (SSSP_go path_graph_vcut (projr (InitializeIteration_go path_graph_vcut (start_state path_graph_vcut)))))
        = sync_log (projr (InitializeIteration_go path_graph_vcut (start_state path_graph_vcut)))
           @ [Sync writeDestination readSource Reduce_min F_current_length True ''FirstIterationSSSP_cur_len'',
              Sync writeDestination readSource Reduce_min F_current_length True ''SSSP_cur_len'',
              Sync writeDestination readAny Reduce_min F_current_length False ''SSSP_cur_len_any_v'']"
proof -
  let ?st = "projr (InitializeIteration_go path_graph_vcut (start_state path_graph_vcut))"
  let ?s0 = "FirstIterationSSSP_go path_graph_vcut ?st"
  have h: "SSSP_go path_graph_vcut ?st = Some (the (SSSP_go path_graph_vcut ?st))"
    by code_simp
  have r0: "SSSP_accum (SSSP_round path_graph_vcut ?s0) \<noteq> 0"
    by code_simp
  have r1: "SSSP_accum (SSSP_round path_graph_vcut (SSSP_sync_more (SSSP_round path_graph_vcut ?s0))) = 0"
    by code_simp
  have vc: "vertex_cut path_graph_vcut" by code_simp
  from SSSP_go_syncs[OF h] obtain k where
    k1: "\<forall>j<k. SSSP_accum (SSSP_round path_graph_vcut (SSSP_rounds path_graph_vcut j ?s0)) \<noteq> 0"
    and k2: "SSSP_accum (SSSP_round path_graph_vcut (SSSP_rounds path_graph_vcut k ?s0)) = 0"
    and log: "sync_log (the (SSSP_go path_graph_vcut ?st)) = sync_log ?st
           @ Sync writeDestination readSource Reduce_min F_current_length True ''FirstIterationSSSP_cur_len''
           # replicate k (Sync writeDestination readSource Reduce_min F_current_length True ''SSSP_cur_len'')
           @ [if vertex_cut path_graph_vcut
              then Sync writeDestination readAny Reduce_min F_current_length False ''SSSP_cur_len_any_v''
              else Sync writeDestination readAny Reduce_min F_current_length True ''SSSP_cur_len_any'']"
    by blast
  have k: "k = Suc 0"
  proof (rule ccontr)
    assume n: "k \<noteq> Suc 0"
    show False
    proof (cases "k = 0")
      case True
      with k2 r0 show False by simp
    next
      case False
      with n have "Suc 0 < k" by simp
      with k1 have "SSSP_accum (SSSP_round path_graph_vcut (SSSP_rounds path_graph_vcut (Suc 0) ?s0)) \<noteq> 0"
        by blast
      with r1 show False by simp
    qed
  qed
  from log have "sync_log (the (SSSP_go path_graph_vcut ?st)) = sync_log ?st
           @ [Sync writeDestination readSource Reduce_min F_current_length True ''FirstIterationSSSP_cur_len'',
              Sync writeDestination readSource Reduce_min F_current_length True ''SSSP_cur_len'',
              Sync writeDestination readAny Reduce_min F_current_length False ''SSSP_cur_len_any_v'']"
    unfolding k by (simp add: vc)
  with h r0 r1 show ?thesis by (intro conjI)
qed

section \<open>The rounds of the path count\<close>

lemma getData_nsp_upd [simp]:
  "getData (st\<lparr>NumShortestPaths_accum := a\<rparr>) v = getData st v"
  "getData (st\<lparr>bitset_to_add := b\<rparr>) v = getData st v"
  "getData (st\<lparr>bitset_trim := b\<rparr>) v = getData st v"
  "getData (st\<lparr>bitset_num_shortest_paths := b\<rparr>) v = getData st v"
  "getData (st\<lparr>bitset_propogation_flag := b\<rparr>) v = getData st v"
  by (simp_all add: getData_def)

lemma dists_nth: "v < length (nodes st) \<Longrightarrow> dists st ! v = current_length (getData st v)"
  by (simp add: dists_def getData_def)

lemma length_dists [simp]: "length (dists st) = length (nodes st)"
  by (simp add: dists_def)

lemma NumShortestPaths_edge_getData:
  assumes "dst < length (nodes st)"
  shows "getData (NumShortestPaths_edge src st dst) v =
     (if v = dst \<and> current_length (getData st src) + 1 = current_length (getData st dst)
      then (getData st v)\<lparr>to_add := to_add (getData st v) + num_shortest_paths (getData st src),
                           trim := trim (getData st v) + 1\<rparr>
      else getData st v)"
  using assms by (simp add: NumShortestPaths_edge_def Let_def getData_map_node)

lemma NumShortestPaths_edge_frame:
  "length (nodes (NumShortestPaths_edge src st dst)) = length (nodes st)"
  "current_src_node (NumShortestPaths_edge src st dst) = current_src_node st"
  "sync_log (NumShortestPaths_edge src st dst) = sync_log st"
  "NumShortestPaths_accum (NumShortestPaths_edge src st dst) = NumShortestPaths_accum st +
     (if current_length (getData st src) + 1 = current_length (getData st dst) then 1 else 0)"
  by (simp_all add: NumShortestPaths_edge_def Let_def)

lemma NumShortestPaths_fold:
  assumes "\<forall>d\<in>set es. d < length (nodes st)"
  shows "length (nodes (foldl (NumShortestPaths_edge u) st es)) = length (nodes st)
     \<and> current_src_node (foldl (NumShortestPaths_edge u) st es) = current_src_node st
     \<and> (\<forall>v. getData (foldl (NumShortestPaths_edge u) st es) v =
          (getData st v)\<lparr>to_add := to_add (getData st v)
               + of_nat (length (filter (\<lambda>d. d = v \<and> current_length (getData st u) + 1 = current_length (getData st d)) es))
                 * num_shortest_paths (getData st u),
             trim := trim (getData st v)
               + of_nat (length (filter (\<lambda>d. d = v \<and> current_length (getData st u) + 1 = current_length (getData st d)) es))\<rparr>)
     \<and> NumShortestPaths_accum (foldl (NumShortestPaths_edge u) st es) = NumShortestPaths_accum st
           + of_nat (length (filter (\<lambda>d. current_length (getData st u) + 1 = current_length (getData st d)) es))"
  using assms
proof (induction es arbitrary: st)
  case Nil
  then show ?case by simp
next
  case (Cons d es)
  let ?st1 = "NumShortestPaths_edge u st d"
  from Cons.prems have d: "d < length (nodes st)" by simp
  note g1 = NumShortestPaths_edge_getData[OF d, of u]
  have cl1: "\<And>v. current_length (getData ?st1 v) = current_length (getData st v)"
    by (simp add: g1)
  have p1: "num_shortest_paths (getData ?st1 u) = num_shortest_paths (getData st u)"
    by (simp add: g1)
  have len1: "\<forall>e\<in>set es. e < length (nodes ?st1)"
    using Cons.prems by (simp add: NumShortestPaths_edge_frame)
  note ih = Cons.IH[OF len1, unfolded cl1 p1]
  show ?case
  proof (intro conjI allI)
    show "length (nodes (foldl (NumShortestPaths_edge u) st (d # es))) = length (nodes st)"
      using ih by (simp add: NumShortestPaths_edge_frame)
    show "current_src_node (foldl (NumShortestPaths_edge u) st (d # es)) = current_src_node st"
      using ih by (simp add: NumShortestPaths_edge_frame)
    show "NumShortestPaths_accum (foldl (NumShortestPaths_edge u) st (d # es)) = NumShortestPaths_accum st
           + of_nat (length (filter (\<lambda>d. current_length (getData st u) + 1 = current_length (getData st d)) (d # es)))"
      using ih by (simp add: NumShortestPaths_edge_frame)
  next
    fix v
    show "getData (foldl (NumShortestPaths_edge u) st (d # es)) v =
          (getData st v)\<lparr>to_add := to_add (getData st v)
               + of_nat (length (filter (\<lambda>d. d = v \<and> current_length (getData st u) + 1 = current_length (getData st d)) (d # es)))
                 * num_shortest_paths (getData st u),
             trim := trim (getData st v)
               + of_nat (length (filter (\<lambda>d. d = v \<and> current_length (getData st u) + 1 = current_length (getData st d)) (d # es)))\<rparr>"
      using ih by (simp add: g1 algebra_simps)
  qed
qed

lemma dag_mult_getData:
  assumes "wf_graph g" and "numNodes g = length (nodes st)" and "u < numNodes g"
  shows "length (filter (\<lambda>d. d = v \<and> current_length (getData st u) + 1 = current_length (getData st d))
            (edge_dsts g ! u)) = dag_mult g (dists st) u v"
proof -
  have "filter (\<lambda>d. d = v \<and> current_length (getData st u) + 1 = current_length (getData st d)) (edge_dsts g ! u)
      = filter (\<lambda>d. d = v \<and> dists st ! u + 1 = dists st ! d) (edge_dsts g ! u)"
    using wf_graph_edges[OF assms(1,3)] assms(2,3)
    by (intro filter_cong refl) (simp add: dists_nth)
  then show ?thesis by (simp add: dag_mult_def)
qed

lemma dag_out_getData:
  assumes "wf_graph g" and "numNodes g = length (nodes st)" and "u < numNodes g"
  shows "length (filter (\<lambda>d. current_length (getData st u) + 1 = current_length (getData st d))
            (edge_dsts g ! u)) = dag_out g (dists st) u"
proof -
  have "filter (\<lambda>d. current_length (getData st u) + 1 = current_length (getData st d)) (edge_dsts g ! u)
      = filter (\<lambda>d. dists st ! u + 1 = dists st ! d) (edge_dsts g ! u)"
    using wf_graph_edges[OF assms(1,3)] assms(2,3)
    by (intro filter_cong refl) (simp add: dists_nth)
  then show ?thesis by (simp add: dag_out_def)
qed

lemma dists_eqI:
  assumes "length (nodes st') = length (nodes st)"
    and "\<And>v. current_length (getData st' v) = current_length (getData st v)"
  shows "dists st' = dists st"
  using assms by (auto simp: dists_def getData_def list_eq_iff_nth_eq)

lemma NumShortestPaths_op_skip: "\<not> pushes st u \<Longrightarrow> NumShortestPaths_op g u st = st"
  by (auto simp: NumShortestPaths_op_def pushes_def)

lemma NumShortestPaths_op_push:
  assumes "wf_graph g" and "numNodes g = length (nodes st)" and "u < numNodes g"
    and "pushes st u"
  shows "length (nodes (NumShortestPaths_op g u st)) = length (nodes st)
     \<and> current_src_node (NumShortestPaths_op g u st) = current_src_node st
     \<and> (\<forall>v. getData (NumShortestPaths_op g u st) v =
          (getData st v)\<lparr>to_add := to_add (getData st v)
               + of_nat (dag_mult g (dists st) u v) * num_shortest_paths (getData st u),
             trim := trim (getData st v) + of_nat (dag_mult g (dists st) u v),
             propogation_flag := (propogation_flag (getData st v) \<and> v \<noteq> u)\<rparr>)
     \<and> NumShortestPaths_accum (NumShortestPaths_op g u st) = NumShortestPaths_accum st
           + of_nat (dag_out g (dists st) u)"
proof -
  let ?st' = "foldl (NumShortestPaths_edge u) st (edge_dsts g ! u)"
  have op: "NumShortestPaths_op g u st = map_node u (\<lambda>d. d\<lparr>propogation_flag := False\<rparr>) ?st'"
    using assms(4) by (simp add: NumShortestPaths_op_def pushes_def)
  have es: "\<forall>d\<in>set (edge_dsts g ! u). d < length (nodes st)"
    using wf_graph_edges[OF assms(1,3)] assms(2) by simp
  note fold = NumShortestPaths_fold[OF es, of u,
      unfolded dag_mult_getData[OF assms(1-3)] dag_out_getData[OF assms(1-3)]]
  have u': "u < length (nodes ?st')" using fold assms(2,3) by simp
  show ?thesis
    unfolding op using fold u' by (simp add: getData_map_node)
qed

lemma NumShortestPaths_op_frame:
  assumes "wf_graph g" and "numNodes g = length (nodes st)" and "u < numNodes g"
  shows "length (nodes (NumShortestPaths_op g u st)) = length (nodes st)"
    and "current_src_node (NumShortestPaths_op g u st) = current_src_node st"
    and "dists (NumShortestPaths_op g u st) = dists st"
    and "num_shortest_paths (getData (NumShortestPaths_op g u st) v) = num_shortest_paths (getData st v)"
    and "v \<noteq> u \<Longrightarrow> pushes (NumShortestPaths_op g u st) v = pushes st v"
proof -
  have *: "length (nodes (NumShortestPaths_op g u st)) = length (nodes st)
     \<and> current_src_node (NumShortestPaths_op g u st) = current_src_node st
     \<and> (\<forall>v. current_length (getData (NumShortestPaths_op g u st) v) = current_length (getData st v)
           \<and> num_shortest_paths (getData (NumShortestPaths_op g u st) v) = num_shortest_paths (getData st v)
           \<and> num_successors (getData (NumShortestPaths_op g u st) v) = num_successors (getData st v)
           \<and> (v \<noteq> u \<longrightarrow> propogation_flag (getData (NumShortestPaths_op g u st) v) = propogation_flag (getData st v)))"
  proof (cases "pushes st u")
    case True
    from NumShortestPaths_op_push[OF assms True] show ?thesis by simp
  next
    case False
    then show ?thesis by (simp add: NumShortestPaths_op_skip)
  qed
  from * show "length (nodes (NumShortestPaths_op g u st)) = length (nodes st)" by simp
  from * show "current_src_node (NumShortestPaths_op g u st) = current_src_node st" by simp
  from * show "dists (NumShortestPaths_op g u st) = dists st" by (intro dists_eqI) simp_all
  from * show "num_shortest_paths (getData (NumShortestPaths_op g u st) v) = num_shortest_paths (getData st v)"
    by simp
  from * show "v \<noteq> u \<Longrightarrow> pushes (NumShortestPaths_op g u st) v = pushes st v"
    by (simp add: pushes_def)
qed

lemma NumShortestPaths_pass:
  assumes "wf_graph g" and "numNodes g = length (nodes st)"
    and "distinct us" and "\<forall>u\<in>set us. u < numNodes g"
  shows "length (nodes (do_all (NumShortestPaths_op g) us st)) = length (nodes st)
     \<and> current_src_node (do_all (NumShortestPaths_op g) us st) = current_src_node st
     \<and> (\<forall>v. getData (do_all (NumShortestPaths_op g) us st) v =
          (getData st v)\<lparr>to_add := to_add (getData st v)
               + sum_list (map (\<lambda>u. if pushes st u
                    then of_nat (dag_mult g (dists st) u v) * num_shortest_paths (getData st u) else 0) us),
             trim := trim (getData st v)
               + of_nat (sum_list (map (\<lambda>u. if pushes st u then dag_mult g (dists st) u v else 0) us)),
             propogation_flag := (propogation_flag (getData st v) \<and> \<not> (v \<in> set us \<and> pushes st v))\<rparr>)
     \<and> NumShortestPaths_accum (do_all (NumShortestPaths_op g) us st) = NumShortestPaths_accum st
           + of_nat (sum_list (map (\<lambda>u. if pushes st u then dag_out g (dists st) u else 0) us))"
  using assms
proof (induction us arbitrary: st)
  case Nil
  then show ?case by simp
next
  case (Cons u us)
  let ?st1 = "NumShortestPaths_op g u st"
  from Cons.prems have u: "u < numNodes g" and nin: "u \<notin> set us" and dist: "distinct us"
    and us: "\<forall>w\<in>set us. w < numNodes g" by simp_all
  note fr = NumShortestPaths_op_frame[OF Cons.prems(1,2) u]
  have len1: "numNodes g = length (nodes ?st1)" using fr(1) Cons.prems(2) by simp
  note ih = Cons.IH[OF Cons.prems(1) len1 dist us, unfolded fr(3) fr(4) fr(1) fr(2)]
  have push1: "\<And>w. w \<in> set us \<Longrightarrow> pushes ?st1 w = pushes st w"
    using nin fr(5) by metis
  have m1: "\<And>v. map (\<lambda>w. if pushes ?st1 w
                    then of_nat (dag_mult g (dists st) w v) * num_shortest_paths (getData st w) else 0) us
          = map (\<lambda>w. if pushes st w
                    then of_nat (dag_mult g (dists st) w v) * num_shortest_paths (getData st w) else 0) us"
    by (intro map_cong refl) (simp add: push1)
  have m2: "\<And>v. map (\<lambda>w. if pushes ?st1 w then dag_mult g (dists st) w v else 0) us
          = map (\<lambda>w. if pushes st w then dag_mult g (dists st) w v else 0) us"
    by (intro map_cong refl) (simp add: push1)
  have m3: "map (\<lambda>w. if pushes ?st1 w then dag_out g (dists st) w else 0) us
          = map (\<lambda>w. if pushes st w then dag_out g (dists st) w else 0) us"
    by (intro map_cong refl) (simp add: push1)
  have f1: "\<And>v. (v \<in> set us \<and> pushes ?st1 v) = (v \<in> set us \<and> pushes st v)"
    using push1 by blast
  note ih' = ih[unfolded m1 m2 m3 f1]
  show ?case
  proof (cases "pushes st u")
    case True
    note op = NumShortestPaths_op_push[OF Cons.prems(1,2) u True]
    have fl: "\<And>v. ((propogation_flag (getData st v) \<and> v \<noteq> u) \<and> \<not> (v \<in> set us \<and> pushes st v))
        = (propogation_flag (getData st v) \<and> \<not> (v \<in> set (u # us) \<and> pushes st v))"
      using True by auto
    show ?thesis
    proof (intro conjI allI)
      fix v
      show "getData (do_all (NumShortestPaths_op g) (u # us) st) v =
          (getData st v)\<lparr>to_add := to_add (getData st v)
               + sum_list (map (\<lambda>u. if pushes st u
                    then of_nat (dag_mult g (dists st) u v) * num_shortest_paths (getData st u) else 0) (u # us)),
             trim := trim (getData st v)
               + of_nat (sum_list (map (\<lambda>u. if pushes st u then dag_mult g (dists st) u v else 0) (u # us))),
             propogation_flag := (propogation_flag (getData st v) \<and> \<not> (v \<in> set (u # us) \<and> pushes st v))\<rparr>"
        using ih' op True unfolding fl[symmetric] by (simp add: algebra_simps)
    qed (use ih' op True in \<open>simp_all add: algebra_simps\<close>)
  next
    case False
    then have st1: "?st1 = st" by (rule NumShortestPaths_op_skip)
    have fl: "\<And>v. (propogation_flag (getData st v) \<and> \<not> (v \<in> set us \<and> pushes st v))
        = (propogation_flag (getData st v) \<and> \<not> (v \<in> set (u # us) \<and> pushes st v))"
      using False by auto
    show ?thesis
      using ih'[unfolded st1] False unfolding fl[symmetric] by (simp add: st1)
  qed
qed

lemma NumShortestPathsChanges_op_fail:
  assumes "\<not> NumShortestPathsChanges_ok (getData st v)" and "v < length (nodes st)"
  shows "NumShortestPathsChanges_op v st =
     Inl (if trim (getData st v) \<le> num_predecessors (getData st v)
          then Assert_not_propogation_flag else Assert_trim_le_num_predecessors)"
  using assms
  by (auto simp: NumShortestPathsChanges_op_def NumShortestPathsChanges_trim_def
      NumShortestPathsChanges_ok_def Let_def getData_map_node)

lemma NumShortestPathsChanges_op_ok:
  assumes "NumShortestPathsChanges_ok (getData st v)" and "v < length (nodes st)"
  shows "\<exists>st'. NumShortestPathsChanges_op v st = Inr st'
     \<and> (\<forall>w. getData st' w = (if w = v then NumShortestPathsChanges_node (getData st v) else getData st w))
     \<and> length (nodes st') = length (nodes st)
     \<and> current_src_node st' = current_src_node st
     \<and> NumShortestPaths_accum st' = NumShortestPaths_accum st"
  using assms
  by (auto simp: NumShortestPathsChanges_op_def NumShortestPathsChanges_trim_def
      NumShortestPathsChanges_to_add_def NumShortestPathsChanges_ok_def
      NumShortestPathsChanges_node_def Let_def getData_map_node)

lemma do_all_chk_local:
  assumes step: "\<And>v st. v < length (nodes st) \<Longrightarrow> ok (getData st v) \<Longrightarrow>
            \<exists>st'. f v st = Inr st'
              \<and> (\<forall>w. getData st' w = (if w = v then h (getData st v) else getData st w))
              \<and> length (nodes st') = length (nodes st) \<and> fr st st'"
    and refl: "\<And>st. fr st st"
    and trans: "\<And>a b c. fr a b \<Longrightarrow> fr b c \<Longrightarrow> fr a c"
    and "distinct us" and "\<forall>v\<in>set us. v < length (nodes st)"
    and "\<forall>v\<in>set us. ok (getData st v)"
  shows "\<exists>st'. do_all_chk f us st = Inr st'
     \<and> (\<forall>w. getData st' w = (if w \<in> set us then h (getData st w) else getData st w))
     \<and> length (nodes st') = length (nodes st) \<and> fr st st'"
  using assms(4-)
proof (induction us arbitrary: st)
  case Nil
  then show ?case by (simp add: refl)
next
  case (Cons u us)
  from Cons.prems have u: "u < length (nodes st)" and ok: "ok (getData st u)"
    and nin: "u \<notin> set us" by simp_all
  from step[OF u ok] obtain st1 where st1: "f u st = Inr st1"
    and g1: "\<And>w. getData st1 w = (if w = u then h (getData st u) else getData st w)"
    and len1: "length (nodes st1) = length (nodes st)" and fr1: "fr st st1"
    by blast
  have "distinct us" "\<forall>v\<in>set us. v < length (nodes st1)" "\<forall>v\<in>set us. ok (getData st1 v)"
    using Cons.prems nin by (auto simp: len1 g1)
  from Cons.IH[OF this] obtain st' where st': "do_all_chk f us st1 = Inr st'"
    and g': "\<And>w. getData st' w = (if w \<in> set us then h (getData st1 w) else getData st1 w)"
    and len': "length (nodes st') = length (nodes st1)" and fr': "fr st1 st'"
    by blast
  have "do_all_chk f (u # us) st = Inr st'" using st1 st' by simp
  moreover have "\<forall>w. getData st' w = (if w \<in> set (u # us) then h (getData st w) else getData st w)"
    using nin by (auto simp: g' g1)
  moreover have "length (nodes st') = length (nodes st)" using len' len1 by simp
  moreover have "fr st st'" using fr1 fr' by (rule trans)
  ultimately show ?case by blast
qed

lemma do_all_chk_local_fail:
  assumes step: "\<And>v st. v < length (nodes st) \<Longrightarrow> ok (getData st v) \<Longrightarrow>
            \<exists>st'. f v st = Inr st'
              \<and> (\<forall>w. getData st' w = (if w = v then h (getData st v) else getData st w))
              \<and> length (nodes st') = length (nodes st)"
    and fail: "\<And>v st. v < length (nodes st) \<Longrightarrow> \<not> ok (getData st v) \<Longrightarrow> \<exists>e. f v st = Inl e"
    and "distinct us" and "\<forall>v\<in>set us. v < length (nodes st)"
    and "\<exists>v\<in>set us. \<not> ok (getData st v)"
  shows "\<exists>e. do_all_chk f us st = Inl e"
  using assms(3-)
proof (induction us arbitrary: st)
  case Nil
  then show ?case by simp
next
  case (Cons u us)
  from Cons.prems have u: "u < length (nodes st)" and nin: "u \<notin> set us" by simp_all
  show ?case
  proof (cases "ok (getData st u)")
    case True
    from step[OF u True] obtain st1 where st1: "f u st = Inr st1"
      and g1: "\<And>w. getData st1 w = (if w = u then h (getData st u) else getData st w)"
      and len1: "length (nodes st1) = length (nodes st)"
      by blast
    from Cons.prems True have "\<exists>v\<in>set us. \<not> ok (getData st v)" by auto
    then have "distinct us" "\<forall>v\<in>set us. v < length (nodes st1)" "\<exists>v\<in>set us. \<not> ok (getData st1 v)"
      using Cons.prems nin by (auto simp: len1 g1)
    from Cons.IH[OF this] st1 show ?thesis by simp
  next
    case False
    from fail[OF u False] show ?thesis by auto
  qed
qed

lemma NumShortestPathsChanges_pass:
  assumes "distinct us" and "\<forall>v\<in>set us. v < length (nodes st)"
    and "\<forall>v\<in>set us. NumShortestPathsChanges_ok (getData st v)"
  shows "\<exists>st'. do_all_chk NumShortestPathsChanges_op us st = Inr st'
     \<and> (\<forall>w. getData st' w =
           (if w \<in> set us then NumShortestPathsChanges_node (getData st w) else getData st w))
     \<and> length (nodes st') = length (nodes st)
     \<and> (current_src_node st' = current_src_node st
          \<and> NumShortestPaths_accum st' = NumShortestPaths_accum st)"
proof (rule do_all_chk_local[where ok = NumShortestPathsChanges_ok
      and fr = "\<lambda>a b. current_src_node b = current_src_node a
          \<and> NumShortestPaths_accum b = NumShortestPaths_accum a", OF _ _ _ assms])
  fix v st
  assume "v < length (nodes st)" "NumShortestPathsChanges_ok (getData st v)"
  from NumShortestPathsChanges_op_ok[OF this(2,1)]
  show "\<exists>st'. NumShortestPathsChanges_op v st = Inr st'
     \<and> (\<forall>w. getData st' w = (if w = v then NumShortestPathsChanges_node (getData st v) else getData st w))
     \<and> length (nodes st') = length (nodes st)
     \<and> (current_src_node st' = current_src_node st
          \<and> NumShortestPaths_accum st' = NumShortestPaths_accum st)"
    by blast
qed simp_all

lemma NumShortestPathsChanges_pass_fail:
  assumes "distinct us" and "\<forall>v\<in>set us. v < length (nodes st)"
    and "\<exists>v\<in>set us. \<not> NumShortestPathsChanges_ok (getData st v)"
  shows "\<exists>e. do_all_chk NumShortestPathsChanges_op us st = Inl e"
proof (rule do_all_chk_local_fail[where ok = NumShortestPathsChanges_ok, OF _ _ assms])
  fix v st
  assume "v < length (nodes st)" "NumShortestPathsChanges_ok (getData st v)"
  from NumShortestPathsChanges_op_ok[OF this(2,1)]
  show "\<exists>st'. NumShortestPathsChanges_op v st = Inr st'
     \<and> (\<forall>w. getData st' w = (if w = v then NumShortestPathsChanges_node (getData st v) else getData st w))
     \<and> length (nodes st') = length (nodes st)"
    by blast
next
  fix v st
  assume "v < length (nodes st)" "\<not> NumShortestPathsChanges_ok (getData st v)"
  from NumShortestPathsChanges_op_fail[OF this(2,1)]
  show "\<exists>e. NumShortestPathsChanges_op v st = Inl e" by blast
qed

lemma pushes_upd [simp]:
  "pushes (st\<lparr>NumShortestPaths_accum := a\<rparr>) u = pushes st u"
  "pushes (sync c st) u = pushes st u"
  by (simp_all add: pushes_def)

lemma dists_upd [simp]:
  "dists (st\<lparr>NumShortestPaths_accum := a\<rparr>) = dists st"
  "dists (sync c st) = dists st"
  by (simp_all add: dists_def sync_def)

lemma sync_frame [simp]:
  "nodes (sync c st) = nodes st"
  "current_src_node (sync c st) = current_src_node st"
  "NumShortestPaths_accum (sync c st) = NumShortestPaths_accum st"
  "DependencyPropogation_accum (sync c st) = DependencyPropogation_accum st"
  "SSSP_accum (sync c st) = SSSP_accum st"
  by (simp_all add: sync_def)

lemma NumShortestPaths_push_getData:
  assumes "wf_graph g" and "numNodes g = length (nodes st)"
  shows "length (nodes (NumShortestPaths_push g st)) = length (nodes st)
     \<and> current_src_node (NumShortestPaths_push g st) = current_src_node st
     \<and> (\<forall>v<numNodes g. getData (NumShortestPaths_push g st) v =
          (getData st v)\<lparr>to_add := to_add (getData st v)
               + sum_list (map (\<lambda>u. if pushes st u
                    then of_nat (dag_mult g (dists st) u v) * num_shortest_paths (getData st u) else 0)
                    [0..<numNodes g]),
             trim := trim (getData st v)
               + of_nat (sum_list (map (\<lambda>u. if pushes st u then dag_mult g (dists st) u v else 0)
                    [0..<numNodes g])),
             propogation_flag := (propogation_flag (getData st v) \<and> \<not> pushes st v)\<rparr>)
     \<and> NumShortestPaths_accum (NumShortestPaths_push g st) = of_nat (round_pushes g st)"
proof -
  let ?st0 = "st\<lparr>NumShortestPaths_accum := 0\<rparr>"
  have len0: "numNodes g = length (nodes ?st0)" using assms(2) by simp
  have "distinct [0..<numNodes g]" "\<forall>u\<in>set [0..<numNodes g]. u < numNodes g" by simp_all
  note pass = NumShortestPaths_pass[OF assms(1) len0 this,
      unfolded dists_upd pushes_upd getData_nsp_upd]
  show ?thesis
    using pass by (simp add: NumShortestPaths_push_def round_pushes_def)
qed

lemma dag_mult_pos_edge:
  assumes "dag_mult g ds u v > 0"
  shows "ds ! u + 1 = ds ! v \<and> v \<in> set (edge_dsts g ! u)"
proof -
  let ?P = "\<lambda>d. d = v \<and> ds ! u + 1 = ds ! d"
  from assms have "0 < length (filter ?P (edge_dsts g ! u))"
    by (simp only: dag_mult_def)
  then have "filter ?P (edge_dsts g ! u) \<noteq> []"
    by (rule length_greater_0_conv[THEN iffD1])
  with filter_empty_conv[of ?P "edge_dsts g ! u"]
  have "\<not> (\<forall>d\<in>set (edge_dsts g ! u). \<not> ?P d)" by blast
  then show ?thesis by blast
qed

lemma sum_list_pos_witness:
  fixes f :: "'a \<Rightarrow> nat"
  assumes "sum_list (map f xs) > 0"
  shows "\<exists>x\<in>set xs. f x > 0"
  using assms by (induction xs) auto

lemma pending_in_split:
  assumes "\<And>u. u < numNodes g \<Longrightarrow> pushes st u \<Longrightarrow> ds ! u \<noteq> infinity \<and> u \<notin> P"
  shows "pending_in g ds P v =
     sum_list (map (\<lambda>u. if pushes st u then dag_mult g ds u v else 0) [0..<numNodes g])
     + pending_in g ds (P \<union> pushers g st) v"
proof -
  have "map (\<lambda>u. if ds ! u \<noteq> infinity \<and> u \<notin> P then dag_mult g ds u v else 0) [0..<numNodes g]
      = map (\<lambda>u. (if pushes st u then dag_mult g ds u v else 0)
           + (if ds ! u \<noteq> infinity \<and> u \<notin> P \<union> pushers g st then dag_mult g ds u v else 0)) [0..<numNodes g]"
    using assms by (intro map_cong refl) (auto simp: pushers_def)
  then have "pending_in g ds P v = sum_list (map (\<lambda>u. (if pushes st u then dag_mult g ds u v else 0)
           + (if ds ! u \<noteq> infinity \<and> u \<notin> P \<union> pushers g st then dag_mult g ds u v else 0)) [0..<numNodes g])"
    unfolding pending_in_def by (rule arg_cong)
  also have "\<dots> = sum_list (map (\<lambda>u. if pushes st u then dag_mult g ds u v else 0) [0..<numNodes g])
     + pending_in g ds (P \<union> pushers g st) v"
    unfolding pending_in_def by (rule sum_list_addf)
  finally show ?thesis .
qed

lemma unat_of_nat_le:
  fixes x :: "32 word"
  assumes "t \<le> unat x"
  shows "unat (of_nat t :: 32 word) = t" and "(of_nat t :: 32 word) \<le> x"
    and "unat (x - of_nat t) = unat x - t"
proof -
  show a: "unat (of_nat t :: 32 word) = t" using assms by (rule le_unat_uoi)
  show b: "(of_nat t :: 32 word) \<le> x" using assms a by (metis word_less_eq_iff_unsigned)
  show "unat (x - of_nat t) = unat x - t" using b a by (simp add: unat_sub)
qed

lemma NumShortestPaths_round_inv:
  assumes ok: "dists_ok g ds" and inv: "nsp_inv g ds P st"
  shows "\<exists>st'. NumShortestPaths_round g st = Inr st'
     \<and> nsp_inv g ds (P \<union> pushers g st) st'
     \<and> NumShortestPaths_accum st' = of_nat (round_pushes g st)
     \<and> current_src_node st' = current_src_node st
     \<and> (\<forall>v<numNodes g. getData st' v =
           NumShortestPathsChanges_node (getData (NumShortestPaths_push g st) v))"
proof -
  let ?n = "numNodes g"
  let ?P' = "P \<union> pushers g st"
  from ok have wf: "wf_graph g"
    and far: "\<And>u. u < ?n \<Longrightarrow> ds ! u \<noteq> infinity \<Longrightarrow> ds ! u + 1 \<noteq> infinity"
    by (simp_all add: dists_ok_def)
  from inv have len: "?n = length (nodes st)" and ds: "dists st = ds"
    by (simp_all add: nsp_inv_def)
  have I: "\<And>v. v < ?n \<Longrightarrow>
           trim (getData st v) = 0 \<and> to_add (getData st v) = 0
         \<and> unat (num_predecessors (getData st v)) = pending_in g ds P v
         \<and> (propogation_flag (getData st v)
              \<longrightarrow> num_predecessors (getData st v) = 0 \<and> ds ! v \<noteq> infinity)
         \<and> (v \<in> P \<longrightarrow> \<not> propogation_flag (getData st v) \<and> num_predecessors (getData st v) = 0)
         \<and> unat (num_successors (getData st v)) = (if ds ! v \<noteq> infinity then dag_out g ds v else 0)"
    using inv by (simp add: nsp_inv_def)
  define T where "T v = sum_list (map (\<lambda>u. if pushes st u then dag_mult g ds u v else 0) [0..<?n])" for v
  define TA where "TA v = sum_list (map (\<lambda>u. if pushes st u
                    then of_nat (dag_mult g ds u v) * num_shortest_paths (getData st u) else 0)
                    [0..<?n])" for v :: nat
  let ?st2 = "NumShortestPaths_push g st"
  note push = NumShortestPaths_push_getData[OF wf len, unfolded ds, folded T_def TA_def]
  have len2: "length (nodes ?st2) = ?n" using push len by simp
  have d2: "\<And>v. v < ?n \<Longrightarrow> getData ?st2 v =
      (getData st v)\<lparr>to_add := TA v, trim := of_nat (T v),
         propogation_flag := (propogation_flag (getData st v) \<and> \<not> pushes st v)\<rparr>"
    using push I by simp
  have cl: "\<And>v. v < ?n \<Longrightarrow> current_length (getData st v) = ds ! v"
    using dists_nth[of _ st] len ds by simp
  have pl: "\<And>u. u < ?n \<Longrightarrow> pushes st u \<Longrightarrow> ds ! u \<noteq> infinity \<and> u \<notin> P"
    using I cl by (auto simp: pushes_def)
  have split: "\<And>v. pending_in g ds P v = T v + pending_in g ds ?P' v"
    unfolding T_def using pl by (rule pending_in_split)
  have T_le: "\<And>v. v < ?n \<Longrightarrow> T v \<le> unat (num_predecessors (getData st v))"
    using I split by simp
  note w = unat_of_nat_le[OF T_le]
  have T_flag: "\<And>v. v < ?n \<Longrightarrow> propogation_flag (getData st v) \<Longrightarrow> T v = 0"
  proof -
    fix v assume v: "v < ?n" and "propogation_flag (getData st v)"
    with I have "num_predecessors (getData st v) = 0" by blast
    with T_le[OF v] show "T v = 0" by simp
  qed
  have T_P: "\<And>v. v < ?n \<Longrightarrow> v \<in> P \<Longrightarrow> T v = 0"
  proof -
    fix v assume v: "v < ?n" and "v \<in> P"
    with I have "num_predecessors (getData st v) = 0" by blast
    with T_le[OF v] show "T v = 0" by simp
  qed
  have T_live: "\<And>v. v < ?n \<Longrightarrow> T v > 0 \<Longrightarrow> ds ! v \<noteq> infinity"
  proof -
    fix v assume v: "v < ?n" and "T v > 0"
    then obtain u where u: "u \<in> set [0..<?n]" "(if pushes st u then dag_mult g ds u v else 0) > 0"
      unfolding T_def using sum_list_pos_witness by blast
    then have pu: "pushes st u" and m: "dag_mult g ds u v > 0" by (auto split: if_splits)
    from u have un: "u < ?n" by simp
    from dag_mult_pos_edge[OF m] have "ds ! u + 1 = ds ! v" by simp
    with far[OF un] pl[OF un pu] show "ds ! v \<noteq> infinity" by metis
  qed
  have T0: "\<And>v. v < ?n \<Longrightarrow> (of_nat (T v) :: 32 word) = 0 \<longleftrightarrow> T v = 0"
  proof -
    fix v assume v: "v < ?n"
    show "(of_nat (T v) :: 32 word) = 0 \<longleftrightarrow> T v = 0"
    proof
      assume "(of_nat (T v) :: 32 word) = 0"
      then have "unat (of_nat (T v) :: 32 word) = 0" by simp
      then show "T v = 0" by (simp only: w(1)[OF v])
    next
      assume "T v = 0"
      then show "(of_nat (T v) :: 32 word) = 0" by simp
    qed
  qed
  have ok2: "\<forall>v\<in>set [0..<?n]. NumShortestPathsChanges_ok (getData ?st2 v)"
  proof
    fix v assume "v \<in> set [0..<?n]"
    then have v: "v < ?n" by simp
    show "NumShortestPathsChanges_ok (getData ?st2 v)"
      using w(2)[OF v] T_flag[OF v] T0[OF v]
      by (auto simp: NumShortestPathsChanges_ok_def d2[OF v] word_greater_zero_iff)
  qed
  have "distinct [0..<?n]" "\<forall>v\<in>set [0..<?n]. v < length (nodes ?st2)" using len2 by simp_all
  from NumShortestPathsChanges_pass[OF this ok2]
  obtain st' where st': "do_all_chk NumShortestPathsChanges_op [0..<?n] ?st2 = Inr st'"
    and g': "\<And>w. getData st' w =
           (if w \<in> set [0..<?n] then NumShortestPathsChanges_node (getData ?st2 w) else getData ?st2 w)"
    and len': "length (nodes st') = length (nodes ?st2)"
    and src': "current_src_node st' = current_src_node ?st2"
    and acc': "NumShortestPaths_accum st' = NumShortestPaths_accum ?st2"
    by blast
  have round: "NumShortestPaths_round g st = Inr st'"
    using st' by (simp add: NumShortestPaths_round_def NumShortestPathsChanges_go_def)
  have d': "\<And>v. v < ?n \<Longrightarrow> getData st' v =
      (getData st v)\<lparr>to_add := 0,
         trim := 0,
         num_predecessors := num_predecessors (getData st v) - of_nat (T v),
         num_shortest_paths := num_shortest_paths (getData st v) + TA v,
         propogation_flag := ((propogation_flag (getData st v) \<and> \<not> pushes st v)
            \<or> (T v > 0 \<and> num_predecessors (getData st v) - of_nat (T v) = 0))\<rparr>"
  proof -
    fix v assume v: "v < ?n"
    have z: "to_add (getData st v) = 0" "trim (getData st v) = 0" using I[OF v] by simp_all
    show "getData st' v =
      (getData st v)\<lparr>to_add := 0,
         trim := 0,
         num_predecessors := num_predecessors (getData st v) - of_nat (T v),
         num_shortest_paths := num_shortest_paths (getData st v) + TA v,
         propogation_flag := ((propogation_flag (getData st v) \<and> \<not> pushes st v)
            \<or> (T v > 0 \<and> num_predecessors (getData st v) - of_nat (T v) = 0))\<rparr>"
      using v T0[OF v] T_flag[OF v] z
      by (cases "T v = 0"; cases "TA v = 0")
         (auto simp: g' d2[OF v] NumShortestPathsChanges_node_def Let_def word_greater_zero_iff
               intro!: NodeData.equality)
  qed
  have dists': "dists st' = ds"
  proof -
    have "length (dists st') = length (dists st)" using len' len2 len by simp
    moreover have "\<And>v. v < length (dists st') \<Longrightarrow> dists st' ! v = dists st ! v"
      using len' len2 len by (simp add: dists_nth d')
    ultimately have "dists st' = dists st" by (rule nth_equalityI)
    with ds show ?thesis by simp
  qed
  have inv': "nsp_inv g ds ?P' st'"
    unfolding nsp_inv_def
  proof (intro conjI allI impI)
    show "?n = length (nodes st')" using len' len2 by simp
    show "dists st' = ds" by (rule dists')
  next
    fix v assume v: "v < ?n"
    show "trim (getData st' v) = 0" by (simp add: d'[OF v])
    show "to_add (getData st' v) = 0" by (simp add: d'[OF v])
    show "unat (num_predecessors (getData st' v)) = pending_in g ds ?P' v"
      using w(3)[OF v] I[OF v] split[of v] by (simp add: d'[OF v])
    show "unat (num_successors (getData st' v)) = (if ds ! v \<noteq> infinity then dag_out g ds v else 0)"
      using I[OF v] by (simp add: d'[OF v])
  next
    fix v assume v: "v < ?n" and fl: "propogation_flag (getData st' v)"
    from fl have c: "(propogation_flag (getData st v) \<and> \<not> pushes st v)
            \<or> (T v > 0 \<and> num_predecessors (getData st v) - of_nat (T v) = 0)"
      by (simp add: d'[OF v])
    show "num_predecessors (getData st' v) = 0"
      using c I[OF v] T_flag[OF v] by (auto simp: d'[OF v])
    show "ds ! v \<noteq> infinity"
      using c I[OF v] T_live[OF v] by blast
  next
    fix v assume v: "v < ?n" and vp: "v \<in> ?P'"
    have t0: "T v = 0" and nf: "\<not> (propogation_flag (getData st v) \<and> \<not> pushes st v)"
      and np: "num_predecessors (getData st v) = 0"
      using vp I[OF v] T_flag[OF v] T_P[OF v] by (auto simp: pushers_def pushes_def)
    show "\<not> propogation_flag (getData st' v)" using t0 nf by (simp add: d'[OF v])
    show "num_predecessors (getData st' v) = 0" using t0 np by (simp add: d'[OF v])
  qed
  have last: "\<forall>v<?n. getData st' v = NumShortestPathsChanges_node (getData ?st2 v)"
    by (simp add: g')
  from round inv' last acc' src' push show ?thesis by simp
qed

lemma getData_pas_upd [simp]:
  "getData (st\<lparr>bitset_num_successors := b\<rparr>) v = getData st v"
  "getData (st\<lparr>bitset_num_predecessors := b\<rparr>) v = getData st v"
  by (simp_all add: getData_def)

lemma PredAndSucc_edge_getData:
  assumes "dst < length (nodes st)" and "src < length (nodes st)"
  shows "getData (PredAndSucc_edge src st dst) v =
     (if current_length (getData st src) + 1 = current_length (getData st dst)
      then (getData st v)\<lparr>num_successors := num_successors (getData st v) + (if v = src then 1 else 0),
                           num_predecessors := num_predecessors (getData st v) + (if v = dst then 1 else 0)\<rparr>
      else getData st v)"
  using assms by (simp add: PredAndSucc_edge_def Let_def getData_map_node)

lemma PredAndSucc_edge_frame:
  "length (nodes (PredAndSucc_edge src st dst)) = length (nodes st)"
  "current_src_node (PredAndSucc_edge src st dst) = current_src_node st"
  by (simp_all add: PredAndSucc_edge_def Let_def)

lemma PredAndSucc_fold:
  assumes "\<forall>d\<in>set es. d < length (nodes st)" and "u < length (nodes st)"
  shows "length (nodes (foldl (PredAndSucc_edge u) st es)) = length (nodes st)
     \<and> current_src_node (foldl (PredAndSucc_edge u) st es) = current_src_node st
     \<and> (\<forall>v. getData (foldl (PredAndSucc_edge u) st es) v =
          (getData st v)\<lparr>num_successors := num_successors (getData st v)
               + (if v = u then of_nat (length (filter (\<lambda>d. current_length (getData st u) + 1 = current_length (getData st d)) es)) else 0),
             num_predecessors := num_predecessors (getData st v)
               + of_nat (length (filter (\<lambda>d. d = v \<and> current_length (getData st u) + 1 = current_length (getData st d)) es))\<rparr>)"
  using assms
proof (induction es arbitrary: st)
  case Nil
  then show ?case by simp
next
  case (Cons d es)
  let ?st1 = "PredAndSucc_edge u st d"
  from Cons.prems have d: "d < length (nodes st)" by simp
  note g1 = PredAndSucc_edge_getData[OF d Cons.prems(2)]
  have cl1: "\<And>v. current_length (getData ?st1 v) = current_length (getData st v)"
    by (simp add: g1)
  have len1: "\<forall>e\<in>set es. e < length (nodes ?st1)" "u < length (nodes ?st1)"
    using Cons.prems by (simp_all add: PredAndSucc_edge_frame)
  note ih = Cons.IH[OF len1, unfolded cl1]
  show ?case
  proof (intro conjI allI)
    show "length (nodes (foldl (PredAndSucc_edge u) st (d # es))) = length (nodes st)"
      using ih by (simp add: PredAndSucc_edge_frame)
    show "current_src_node (foldl (PredAndSucc_edge u) st (d # es)) = current_src_node st"
      using ih by (simp add: PredAndSucc_edge_frame)
  next
    fix v
    show "getData (foldl (PredAndSucc_edge u) st (d # es)) v =
          (getData st v)\<lparr>num_successors := num_successors (getData st v)
               + (if v = u then of_nat (length (filter (\<lambda>d. current_length (getData st u) + 1 = current_length (getData st d)) (d # es))) else 0),
             num_predecessors := num_predecessors (getData st v)
               + of_nat (length (filter (\<lambda>d. d = v \<and> current_length (getData st u) + 1 = current_length (getData st d)) (d # es)))\<rparr>"
      using ih by (simp add: g1 algebra_simps)
  qed
qed

lemma PredAndSucc_op_getData:
  assumes "wf_graph g" and "numNodes g = length (nodes st)" and "u < numNodes g"
  shows "length (nodes (PredAndSucc_op g u st)) = length (nodes st)
     \<and> current_src_node (PredAndSucc_op g u st) = current_src_node st
     \<and> (\<forall>v. getData (PredAndSucc_op g u st) v =
          (getData st v)\<lparr>num_successors := num_successors (getData st v)
               + (if v = u \<and> dists st ! u \<noteq> infinity then of_nat (dag_out g (dists st) u) else 0),
             num_predecessors := num_predecessors (getData st v)
               + of_nat (if dists st ! u \<noteq> infinity then dag_mult g (dists st) u v else 0)\<rparr>)"
proof -
  have es: "\<forall>d\<in>set (edge_dsts g ! u). d < length (nodes st)" and u: "u < length (nodes st)"
    using wf_graph_edges[OF assms(1,3)] assms(2,3) by simp_all
  note fold = PredAndSucc_fold[OF es u,
      unfolded dag_mult_getData[OF assms(1-3)] dag_out_getData[OF assms(1-3)]]
  have c: "current_length (getData st u) = dists st ! u" using u by (simp add: dists_nth)
  show ?thesis
    using fold by (simp add: PredAndSucc_op_def c)
qed

lemma PredAndSucc_pass:
  assumes "wf_graph g" and "numNodes g = length (nodes st)"
    and "distinct us" and "\<forall>u\<in>set us. u < numNodes g"
  shows "length (nodes (do_all (PredAndSucc_op g) us st)) = length (nodes st)
     \<and> current_src_node (do_all (PredAndSucc_op g) us st) = current_src_node st
     \<and> dists (do_all (PredAndSucc_op g) us st) = dists st
     \<and> (\<forall>v. getData (do_all (PredAndSucc_op g) us st) v =
          (getData st v)\<lparr>num_successors := num_successors (getData st v)
               + (if v \<in> set us \<and> dists st ! v \<noteq> infinity then of_nat (dag_out g (dists st) v) else 0),
             num_predecessors := num_predecessors (getData st v)
               + of_nat (sum_list (map (\<lambda>u. if dists st ! u \<noteq> infinity then dag_mult g (dists st) u v else 0) us))\<rparr>)"
  using assms
proof (induction us arbitrary: st)
  case Nil
  then show ?case by simp
next
  case (Cons u us)
  let ?st1 = "PredAndSucc_op g u st"
  from Cons.prems have u: "u < numNodes g" and nin: "u \<notin> set us" and dist: "distinct us"
    and us: "\<forall>w\<in>set us. w < numNodes g" by simp_all
  note op = PredAndSucc_op_getData[OF Cons.prems(1,2) u]
  have len1: "numNodes g = length (nodes ?st1)" using op Cons.prems(2) by simp
  have ds1: "dists ?st1 = dists st" using op by (intro dists_eqI) simp_all
  note ih = Cons.IH[OF Cons.prems(1) len1 dist us, unfolded ds1]
  show ?case
  proof (intro conjI allI)
    fix v
    show "getData (do_all (PredAndSucc_op g) (u # us) st) v =
          (getData st v)\<lparr>num_successors := num_successors (getData st v)
               + (if v \<in> set (u # us) \<and> dists st ! v \<noteq> infinity then of_nat (dag_out g (dists st) v) else 0),
             num_predecessors := num_predecessors (getData st v)
               + of_nat (sum_list (map (\<lambda>u. if dists st ! u \<noteq> infinity then dag_mult g (dists st) u v else 0) (u # us)))\<rparr>"
      using ih op nin by (auto simp: algebra_simps)
  qed (use ih op in simp_all)
qed

lemma dag_mult_le: "dag_mult g ds u v \<le> length (edge_dsts g ! u)"
  by (simp add: dag_mult_def)

lemma dag_out_le: "dag_out g ds u \<le> length (edge_dsts g ! u)"
  by (simp add: dag_out_def)

lemma numEdges_upt:
  "sum_list (map (\<lambda>u. length (edge_dsts g ! u)) [0..<numNodes g]) = numEdges g"
proof -
  have "map (\<lambda>u. length (edge_dsts g ! u)) [0..<length (edge_dsts g)]
      = map length (map (\<lambda>u. edge_dsts g ! u) [0..<length (edge_dsts g)])"
    by simp
  also have "\<dots> = map length (edge_dsts g)" by (simp only: map_nth)
  finally show ?thesis by (simp add: numEdges_def numNodes_def)
qed

lemma edges_le_numEdges:
  assumes "u < numNodes g"
  shows "length (edge_dsts g ! u) \<le> numEdges g"
proof -
  from assms have "length (edge_dsts g ! u) \<in> set (map length (edge_dsts g))"
    by (simp add: numNodes_def)
  then show ?thesis unfolding numEdges_def by (rule member_le_sum_list) simp
qed

lemma sum_dag_mult_le:
  "sum_list (map (\<lambda>u. if A u then dag_mult g ds u v else 0) [0..<numNodes g]) \<le> numEdges g"
proof -
  have "sum_list (map (\<lambda>u. if A u then dag_mult g ds u v else 0) [0..<numNodes g])
      \<le> sum_list (map (\<lambda>u. length (edge_dsts g ! u)) [0..<numNodes g])"
    by (rule sum_list_mono) (simp add: dag_mult_le)
  then show ?thesis by (simp only: numEdges_upt)
qed

lemma sum_dag_out_le:
  "sum_list (map (\<lambda>u. if A u then dag_out g ds u else 0) [0..<numNodes g]) \<le> numEdges g"
proof -
  have "sum_list (map (\<lambda>u. if A u then dag_out g ds u else 0) [0..<numNodes g])
      \<le> sum_list (map (\<lambda>u. length (edge_dsts g ! u)) [0..<numNodes g])"
    by (rule sum_list_mono) (simp add: dag_out_le)
  then show ?thesis by (simp only: numEdges_upt)
qed

lemma unat_of_nat_small:
  assumes "t < 2 ^ 32"
  shows "unat (of_nat t :: 32 word) = t"
  using assms by (simp add: unat_of_nat)

lemma infinity_lt_max: "infinity < (- 1 :: 32 word)"
  by (simp add: infinity_numeral)

lemma no_edge_into_zero:
  fixes x :: "32 word"
  assumes "x \<le> infinity"
  shows "x + 1 \<noteq> 0"
  using assms
  by (metis add.commute add.right_inverse add_left_cancel infinity_lt_max linorder_not_less)

lemma sum_list_zeroI:
  fixes f :: "'a \<Rightarrow> nat"
  assumes "\<And>x. x \<in> set xs \<Longrightarrow> f x = 0"
  shows "sum_list (map f xs) = 0"
  using assms by (induction xs) simp_all

lemma PredAndSucc_establishes_nsp_inv:
  assumes "bfs_done g st"
  shows "nsp_inv g (dists st) {} (PredAndSucc_go g st)"
proof -
  let ?n = "numNodes g" and ?ds = "dists st"
  let ?st1 = "do_all (PredAndSucc_op g) [0..<?n] st"
  from assms have len: "?n = length (nodes st)" and ok: "dists_ok g ?ds"
    by (simp_all add: bfs_done_def)
  from ok have wf: "wf_graph g" and small: "numEdges g < 2 ^ 32" by (simp_all add: dists_ok_def)
  have B: "\<And>v. v < ?n \<Longrightarrow> current_length (getData st v) \<le> infinity
         \<and> num_successors (getData st v) = 0 \<and> num_predecessors (getData st v) = 0
         \<and> trim (getData st v) = 0 \<and> to_add (getData st v) = 0
         \<and> (propogation_flag (getData st v) \<longrightarrow> current_length (getData st v) = 0)"
    using assms by (simp add: bfs_done_def)
  have "distinct [0..<?n]" "\<forall>u\<in>set [0..<?n]. u < ?n" by simp_all
  note pass = PredAndSucc_pass[OF wf len this]
  have g1: "\<And>v. v < ?n \<Longrightarrow> getData (PredAndSucc_go g st) v =
      (getData st v)\<lparr>num_successors := (if ?ds ! v \<noteq> infinity then of_nat (dag_out g ?ds v) else 0),
         num_predecessors := of_nat (pending_in g ?ds {} v)\<rparr>"
    using pass B by (simp add: PredAndSucc_go_def pending_in_def)
  have cl: "\<And>v. v < ?n \<Longrightarrow> current_length (getData st v) = ?ds ! v"
    using len by (simp add: dists_nth)
  have pend_small: "\<And>v. pending_in g ?ds {} v < 2 ^ 32"
    unfolding pending_in_def using sum_dag_mult_le[of _ g ?ds] small
    by (meson le_less_trans)
  have out_small: "\<And>v. v < ?n \<Longrightarrow> dag_out g ?ds v < 2 ^ 32"
    using dag_out_le[of g ?ds] edges_le_numEdges[of _ g] small
    by (meson le_less_trans order_trans)
  have flag0: "\<And>v. v < ?n \<Longrightarrow> propogation_flag (getData st v) \<Longrightarrow> pending_in g ?ds {} v = 0"
  proof -
    fix v assume v: "v < ?n" and fl: "propogation_flag (getData st v)"
    with B cl have z: "?ds ! v = 0" by simp
    have "\<And>u. u \<in> set [0..<?n] \<Longrightarrow>
        (if ?ds ! u \<noteq> infinity \<and> u \<notin> {} then dag_mult g ?ds u v else 0) = 0"
    proof -
      fix u assume "u \<in> set [0..<?n]"
      then have u: "u < ?n" by simp
      have "dag_mult g ?ds u v = 0"
      proof (rule ccontr)
        assume "dag_mult g ?ds u v \<noteq> 0"
        then have "dag_mult g ?ds u v > 0" by simp
        from dag_mult_pos_edge[OF this] z have "?ds ! u + 1 = 0" by simp
        moreover from B[OF u] cl[OF u] have "?ds ! u \<le> infinity" by simp
        ultimately show False using no_edge_into_zero by blast
      qed
      then show "(if ?ds ! u \<noteq> infinity \<and> u \<notin> {} then dag_mult g ?ds u v else 0) = 0" by simp
    qed
    then show "pending_in g ?ds {} v = 0"
      unfolding pending_in_def by (rule sum_list_zeroI)
  qed
  show ?thesis
    unfolding nsp_inv_def
  proof (intro conjI allI impI)
    show "?n = length (nodes (PredAndSucc_go g st))"
      using pass len by (simp add: PredAndSucc_go_def)
    show "dists (PredAndSucc_go g st) = ?ds"
      using pass by (simp add: PredAndSucc_go_def)
  next
    fix v assume v: "v < ?n"
    show "trim (getData (PredAndSucc_go g st) v) = 0" using B[OF v] by (simp add: g1[OF v])
    show "to_add (getData (PredAndSucc_go g st) v) = 0" using B[OF v] by (simp add: g1[OF v])
    show "unat (num_predecessors (getData (PredAndSucc_go g st) v)) = pending_in g ?ds {} v"
      using unat_of_nat_small[OF pend_small] by (simp add: g1[OF v])
    show "unat (num_successors (getData (PredAndSucc_go g st) v))
        = (if ?ds ! v \<noteq> infinity then dag_out g ?ds v else 0)"
      using unat_of_nat_small[OF out_small[OF v]] by (simp add: g1[OF v])
  next
    fix v assume v: "v < ?n" and "propogation_flag (getData (PredAndSucc_go g st) v)"
    then have fl: "propogation_flag (getData st v)" by (simp add: g1[OF v])
    show "num_predecessors (getData (PredAndSucc_go g st) v) = 0"
      using flag0[OF v fl] by (simp add: g1[OF v])
    from fl B[OF v] cl[OF v] have "?ds ! v = 0" by simp
    then show "?ds ! v \<noteq> infinity" by (simp add: infinity_numeral)
  qed simp_all
qed

lemma nsp_inv_pushers_fresh:
  assumes "nsp_inv g ds P st"
  shows "pushers g st \<inter> P = {}"
  using assms by (auto simp: nsp_inv_def pushers_def pushes_def)

lemma nsp_inv_pushes_iff:
  assumes "nsp_inv g ds P st" and "u < numNodes g"
  shows "pushes st u \<longleftrightarrow> propogation_flag (getData st u) \<and> num_successors (getData st u) > 0"
proof -
  from assms have "propogation_flag (getData st u) \<longrightarrow> ds ! u \<noteq> infinity"
    and "dists st = ds" and "numNodes g = length (nodes st)"
    by (simp_all add: nsp_inv_def)
  with assms(2) dists_nth[of u st] show ?thesis by (auto simp: pushes_def)
qed

lemma NumShortestPaths_rounds_inv:
  assumes "dists_ok g ds" and "nsp_inv g ds P st"
  shows "\<exists>st' P'. NumShortestPaths_rounds g k st = Inr st' \<and> nsp_inv g ds P' st'
     \<and> P \<subseteq> P' \<and> (0 < k \<longrightarrow> pushers g st \<subseteq> P')"
  using assms(2)
proof (induction k arbitrary: st P)
  case 0
  then show ?case by auto
next
  case (Suc k)
  from NumShortestPaths_round_inv[OF assms(1) Suc.prems] obtain st1 where
    r: "NumShortestPaths_round g st = Inr st1" and i1: "nsp_inv g ds (P \<union> pushers g st) st1"
    by blast
  from Suc.IH[OF i1] obtain st' P' where
    "NumShortestPaths_rounds g k st1 = Inr st'" "nsp_inv g ds P' st'" "P \<union> pushers g st \<subseteq> P'"
    by blast
  with r show ?case by auto
qed

lemma NumShortestPaths_rounds_add:
  "NumShortestPaths_rounds g (i + k) st =
     (case NumShortestPaths_rounds g i st of
        Inl e \<Rightarrow> Inl e
      | Inr s \<Rightarrow> NumShortestPaths_rounds g k s)"
  by (induction i arbitrary: st) (simp_all split: sum.splits)

lemma all_less_list_all: "(\<forall>v<n. P v) \<longleftrightarrow> list_all P [0..<n]"
  by (auto simp add: list_all_iff)

text \<open>
  C4: in every state that the rounds of the path count reach from a state in which
  the breadth-first search can leave the nodes (\<open>bfs_done\<close>: no counter wraps), the
  nodes from which \<^verbatim>\<open>NumShortestPaths::operator()\<close> pushes are exactly those whose flag
  is set and whose \<open>num_successors\<close> is positive (the test of their distance against
  \<open>infinity\<close> excludes none of them). The operator pass of the round adds the
  \<open>num_shortest_paths\<close> of every pushing node to \<open>to_add\<close> of the destination of
  each of its DAG edges, adds 1 to \<open>trim\<close> of that destination for each such edge, and
  clears the flag of the pushing node. In every later round of the phase the flag of
  a node that has pushed is clear, so it does not push again; and no round fails an
  assertion.
\<close>

theorem NumShortestPaths_pushes_once:
  assumes "bfs_done g st0"
    and "NumShortestPaths_rounds g i (PredAndSucc_go g st0) = Inr st"
  shows "(\<forall>u<numNodes g. pushes st u
            \<longleftrightarrow> propogation_flag (getData st u) \<and> num_successors (getData st u) > 0)
     \<and> (\<forall>v<numNodes g. getData (NumShortestPaths_push g st) v =
          (getData st v)\<lparr>to_add :=
               sum_list (map (\<lambda>u. if pushes st u
                    then of_nat (dag_mult g (dists st) u v) * num_shortest_paths (getData st u) else 0)
                    [0..<numNodes g]),
             trim :=
               of_nat (sum_list (map (\<lambda>u. if pushes st u then dag_mult g (dists st) u v else 0)
                    [0..<numNodes g])),
             propogation_flag := (propogation_flag (getData st v) \<and> \<not> pushes st v)\<rparr>)
     \<and> (\<forall>j. \<exists>st'. NumShortestPaths_rounds g (i + j) (PredAndSucc_go g st0) = Inr st'
            \<and> (0 < j \<longrightarrow> (\<forall>u<numNodes g. pushes st u
                  \<longrightarrow> \<not> propogation_flag (getData st' u) \<and> \<not> pushes st' u)))"
proof -
  let ?ds = "dists st0"
  from assms(1) have ok: "dists_ok g ?ds" by (simp add: bfs_done_def)
  then have wf: "wf_graph g" by (simp add: dists_ok_def)
  note i0 = PredAndSucc_establishes_nsp_inv[OF assms(1)]
  from NumShortestPaths_rounds_inv[OF ok i0, of i] assms(2)
  obtain P where inv: "nsp_inv g ?ds P st" by auto
  then have len: "numNodes g = length (nodes st)"
    and z: "\<And>v. v < numNodes g \<Longrightarrow> trim (getData st v) = 0 \<and> to_add (getData st v) = 0"
    by (simp_all add: nsp_inv_def)
  have 1: "\<forall>u<numNodes g. pushes st u
            \<longleftrightarrow> propogation_flag (getData st u) \<and> num_successors (getData st u) > 0"
    using nsp_inv_pushes_iff[OF inv] by blast
  have 2: "\<forall>v<numNodes g. getData (NumShortestPaths_push g st) v =
          (getData st v)\<lparr>to_add :=
               sum_list (map (\<lambda>u. if pushes st u
                    then of_nat (dag_mult g (dists st) u v) * num_shortest_paths (getData st u) else 0)
                    [0..<numNodes g]),
             trim :=
               of_nat (sum_list (map (\<lambda>u. if pushes st u then dag_mult g (dists st) u v else 0)
                    [0..<numNodes g])),
             propogation_flag := (propogation_flag (getData st v) \<and> \<not> pushes st v)\<rparr>"
    using NumShortestPaths_push_getData[OF wf len] z by simp
  have 3: "\<exists>st'. NumShortestPaths_rounds g (i + j) (PredAndSucc_go g st0) = Inr st'
            \<and> (0 < j \<longrightarrow> (\<forall>u<numNodes g. pushes st u
                  \<longrightarrow> \<not> propogation_flag (getData st' u) \<and> \<not> pushes st' u))" for j
  proof -
    from NumShortestPaths_rounds_inv[OF ok inv, of j] obtain st' P' where
      r: "NumShortestPaths_rounds g j st = Inr st'" and i': "nsp_inv g ?ds P' st'"
      and sub: "0 < j \<longrightarrow> pushers g st \<subseteq> P'"
      by blast
    have "NumShortestPaths_rounds g (i + j) (PredAndSucc_go g st0) = Inr st'"
      using r assms(2) by (simp add: NumShortestPaths_rounds_add)
    moreover have "\<not> propogation_flag (getData st' u) \<and> \<not> pushes st' u"
      if "0 < j" "u < numNodes g" "pushes st u" for u
    proof -
      from that sub have "u \<in> P'" by (auto simp: pushers_def)
      with i' that(2) show ?thesis by (auto simp: nsp_inv_def pushes_def)
    qed
    ultimately show ?thesis by blast
  qed
  from 1 2 3 show ?thesis by blast
qed

lemma bfs_done_code:
  "bfs_done g st \<longleftrightarrow> numNodes g = length (nodes st)
     \<and> (wf_graph g \<and> length (dists st) = numNodes g \<and> numEdges g < 2 ^ 32
        \<and> list_all (\<lambda>u. dists st ! u \<noteq> infinity \<longrightarrow> dists st ! u + 1 \<noteq> infinity) [0..<numNodes g])
     \<and> list_all (\<lambda>v. current_length (getData st v) \<le> infinity
         \<and> num_successors (getData st v) = 0 \<and> num_predecessors (getData st v) = 0
         \<and> trim (getData st v) = 0 \<and> to_add (getData st v) = 0
         \<and> (propogation_flag (getData st v) \<longrightarrow> current_length (getData st v) = 0)) [0..<numNodes g]"
  unfolding bfs_done_def dists_ok_def all_less_list_all ..

lemma bfs_done_diamond: "bfs_done diamond_graph (bfs_state diamond_graph)"
proof -
  have e: "numEdges diamond_graph = 4" by code_simp
  have "numEdges diamond_graph < 2 ^ 32" unfolding e by simp
  moreover have "numNodes diamond_graph = length (nodes (bfs_state diamond_graph))" by code_simp
  moreover have "wf_graph diamond_graph" by code_simp
  moreover have "length (dists (bfs_state diamond_graph)) = numNodes diamond_graph" by code_simp
  moreover have "list_all (\<lambda>u. dists (bfs_state diamond_graph) ! u \<noteq> infinity
       \<longrightarrow> dists (bfs_state diamond_graph) ! u + 1 \<noteq> infinity) [0..<numNodes diamond_graph]"
    by code_simp
  moreover have "list_all (\<lambda>v. current_length (getData (bfs_state diamond_graph) v) \<le> infinity
         \<and> num_successors (getData (bfs_state diamond_graph) v) = 0
         \<and> num_predecessors (getData (bfs_state diamond_graph) v) = 0
         \<and> trim (getData (bfs_state diamond_graph) v) = 0
         \<and> to_add (getData (bfs_state diamond_graph) v) = 0
         \<and> (propogation_flag (getData (bfs_state diamond_graph) v)
              \<longrightarrow> current_length (getData (bfs_state diamond_graph) v) = 0))
       [0..<numNodes diamond_graph]"
    by code_simp
  ultimately show ?thesis unfolding bfs_done_code by blast
qed

theorem NumShortestPaths_pushes_once_witness:
  "bfs_done diamond_graph (bfs_state diamond_graph)
   \<and> NumShortestPaths_rounds diamond_graph 1 (PredAndSucc_go diamond_graph (bfs_state diamond_graph))
       = Inr (projr (NumShortestPaths_rounds diamond_graph 1
                (PredAndSucc_go diamond_graph (bfs_state diamond_graph))))
   \<and> pushes (projr (NumShortestPaths_rounds diamond_graph 1
                (PredAndSucc_go diamond_graph (bfs_state diamond_graph)))) 1
   \<and> propogation_flag (getData (projr (NumShortestPaths_rounds diamond_graph 1
                (PredAndSucc_go diamond_graph (bfs_state diamond_graph)))) 1)
   \<and> trim (getData (NumShortestPaths_push diamond_graph (projr (NumShortestPaths_rounds diamond_graph 1
                (PredAndSucc_go diamond_graph (bfs_state diamond_graph))))) 3) = 2
   \<and> (\<exists>st'. NumShortestPaths_rounds diamond_graph (1 + 1)
                (PredAndSucc_go diamond_graph (bfs_state diamond_graph)) = Inr st'
          \<and> \<not> propogation_flag (getData st' 1) \<and> \<not> pushes st' 1)"
proof -
  define b where "b = bfs_state diamond_graph"
  define s where "s = projr (NumShortestPaths_rounds diamond_graph 1 (PredAndSucc_go diamond_graph b))"
  have h1: "bfs_done diamond_graph b" unfolding b_def by (rule bfs_done_diamond)
  have h2: "NumShortestPaths_rounds diamond_graph 1 (PredAndSucc_go diamond_graph b) = Inr s"
    unfolding s_def b_def by code_simp
  have p1: "pushes s 1" unfolding s_def b_def by code_simp
  have n: "1 < numNodes diamond_graph" by code_simp
  have t: "trim (getData (NumShortestPaths_push diamond_graph s) 3) = 2"
    unfolding s_def b_def by code_simp
  note inst = NumShortestPaths_pushes_once[OF h1 h2]
  from inst have "\<forall>u<numNodes diamond_graph. pushes s u
       \<longleftrightarrow> propogation_flag (getData s u) \<and> num_successors (getData s u) > 0"
    by (rule conjunct1)
  with n p1 have f1: "propogation_flag (getData s 1)" by blast
  from inst have "\<forall>j. \<exists>st'. NumShortestPaths_rounds diamond_graph (1 + j) (PredAndSucc_go diamond_graph b) = Inr st'
            \<and> (0 < j \<longrightarrow> (\<forall>u<numNodes diamond_graph. pushes s u
                  \<longrightarrow> \<not> propogation_flag (getData st' u) \<and> \<not> pushes st' u))"
    by (rule conjunct2[THEN conjunct2])
  then have "\<exists>st'. NumShortestPaths_rounds diamond_graph (1 + 1) (PredAndSucc_go diamond_graph b) = Inr st'
            \<and> (0 < (1::nat) \<longrightarrow> (\<forall>u<numNodes diamond_graph. pushes s u
                  \<longrightarrow> \<not> propogation_flag (getData st' u) \<and> \<not> pushes st' u))"
    by (rule spec)
  then obtain st' where r: "NumShortestPaths_rounds diamond_graph (1 + 1) (PredAndSucc_go diamond_graph b) = Inr st'"
    and l: "0 < (1::nat) \<longrightarrow> (\<forall>u<numNodes diamond_graph. pushes s u
                  \<longrightarrow> \<not> propogation_flag (getData st' u) \<and> \<not> pushes st' u)"
    by (elim exE conjE)
  from l n p1 have "\<not> propogation_flag (getData st' 1) \<and> \<not> pushes st' 1" by simp
  with r have ex: "\<exists>st'. NumShortestPaths_rounds diamond_graph (1 + 1) (PredAndSucc_go diamond_graph b) = Inr st'
          \<and> \<not> propogation_flag (getData st' 1) \<and> \<not> pushes st' 1"
    by blast
  have "bfs_done diamond_graph b
   \<and> NumShortestPaths_rounds diamond_graph 1 (PredAndSucc_go diamond_graph b) = Inr s
   \<and> pushes s 1 \<and> propogation_flag (getData s 1)
   \<and> trim (getData (NumShortestPaths_push diamond_graph s) 3) = 2
   \<and> (\<exists>st'. NumShortestPaths_rounds diamond_graph (1 + 1) (PredAndSucc_go diamond_graph b) = Inr st'
          \<and> \<not> propogation_flag (getData st' 1) \<and> \<not> pushes st' 1)"
    using h1 h2 p1 f1 t ex by (intro conjI)
  then show ?thesis unfolding s_def b_def .
qed


end
